theory Spec2Isabelle
  imports Main "HOL-Library.Word"
begin

section \<open>Pool start-up: the number of worker threads\<close>

text \<open>
  The constructor of \<open>threadpool_scheduler_impl\<close> (scheduler.cpp, lines 284-296):
  \<^verbatim>\<open>
  const char *s = std::getenv("LIBASYNC_NUM_THREADS");
  num_threads = std::thread::hardware_concurrency();
  try {
      if (s)
          num_threads = std::stoi(s);
  } catch (...) {}
  num_threads = std::max(num_threads, 1);
  \<close>
  \<open>num_threads\<close> is an \<open>int\<close> (32 bits), \<open>hardware_concurrency\<close> returns an
  \<open>unsigned\<close>. \<open>std::stoi\<close> is the C++ library's: it converts as \<open>strtol\<close> does in
  base 10 (leading white space is skipped, one sign is accepted, the longest run of
  digits is converted and whatever follows is left alone), throws
  \<open>invalid_argument\<close> when there is no digit to convert and \<open>out_of_range\<close> when the
  value does not fit an \<open>int\<close>.
\<close>

definition isspace :: "char \<Rightarrow> bool" where
  "isspace c = (of_char c \<in> {32, 9, 10, 11, 12, 13 :: nat})"

definition isdigit :: "char \<Rightarrow> bool" where
  "isdigit c = (48 \<le> (of_char c :: nat) \<and> (of_char c :: nat) \<le> 57)"

definition digit_value :: "char \<Rightarrow> int" where
  "digit_value c = int (of_char c) - 48"

definition decimal :: "string \<Rightarrow> int" where
  "decimal ds = foldl (\<lambda>a c. 10 * a + digit_value c) 0 ds"

datatype stoi_error = invalid_argument | out_of_range

definition INT_MIN :: int where "INT_MIN = - 2147483648"
definition INT_MAX :: int where "INT_MAX = 2147483647"

definition stoi :: "string \<Rightarrow> stoi_error + int" where
  "stoi str =
     (let s1 = dropWhile isspace str;
          neg = (s1 \<noteq> [] \<and> hd s1 = CHR ''-'');
          s2 = (if s1 \<noteq> [] \<and> (hd s1 = CHR ''-'' \<or> hd s1 = CHR ''+'') then tl s1 else s1);
          ds = takeWhile isdigit s2;
          v = (if neg then - decimal ds else decimal ds)
      in if ds = [] then Inl invalid_argument
         else if v < INT_MIN \<or> INT_MAX < v then Inl out_of_range
         else Inr v)"

definition num_threads_init :: "string option \<Rightarrow> 32 word \<Rightarrow> int" where
  "num_threads_init s hardware_concurrency =
     (let num_threads = sint hardware_concurrency;
          num_threads = (case s of
                           None \<Rightarrow> num_threads
                         | Some str \<Rightarrow> (case stoi str of
                                          Inr v \<Rightarrow> v
                                        | Inl _ \<Rightarrow> num_threads))
      in max num_threads 1)"

text \<open>
  The specification's reading of the variable, for comparison: "a decimal positive
  integer" is a non-empty run of decimal digits; any other text is malformed and, like a
  value that is out of range, ignored; the result is at least one.
\<close>

definition spec_decimal_integer :: "string \<Rightarrow> bool" where
  "spec_decimal_integer str = (str \<noteq> [] \<and> list_all isdigit str)"

definition spec_malformed :: "string \<Rightarrow> bool" where
  "spec_malformed str = (\<not> spec_decimal_integer str)"

definition spec_num_threads :: "string option \<Rightarrow> 32 word \<Rightarrow> int" where
  "spec_num_threads env hardware_concurrency =
     (case env of
        None \<Rightarrow> max (sint hardware_concurrency) 1
      | Some str \<Rightarrow>
          if spec_malformed str \<or> INT_MAX < decimal str then max (sint hardware_concurrency) 1
          else max (decimal str) 1)"

section \<open>The per-task thread scheduler\<close>

text \<open>
  \<open>thread_scheduler_impl::schedule\<close> (lines 392-397):
  \<^verbatim>\<open>
  std::thread([](task_run_handle t) {
      t.run();
  }, std::move(t));
  \<close>
  The statement builds a temporary \<open>std::thread\<close> and nothing more: neither
  \<open>detach()\<close> nor \<open>join()\<close> is called on it, and the temporary is destroyed at the end
  of the statement. The constructor of \<open>std::thread\<close> starts a thread of execution and
  leaves the object joinable; the destructor of a joinable \<open>std::thread\<close> calls
  \<open>std::terminate\<close>, which ends the process.
\<close>

type_synonym task = nat

record std_thread =
  joinable :: bool
  entry :: task

datatype fatal = std_terminate

text \<open>The process, as far as this scheduler sees it: the tasks handed to new threads.\<close>

type_synonym process = "task list"

definition thread_ctor :: "task \<Rightarrow> process \<Rightarrow> std_thread \<times> process" where
  "thread_ctor t p = (\<lparr>joinable = True, entry = t\<rparr>, p @ [t])"

definition thread_dtor :: "std_thread \<Rightarrow> process \<Rightarrow> fatal + process" where
  "thread_dtor th p = (if joinable th then Inl std_terminate else Inr p)"

definition thread_scheduler_schedule :: "task \<Rightarrow> process \<Rightarrow> fatal + process" where
  "thread_scheduler_schedule t p =
     (let (tmp, p1) = thread_ctor t p
      in thread_dtor tmp p1)"

section \<open>The thread pool: shared state\<close>

text \<open>
  The file-level variables of scheduler.cpp (lines 71-107) and the objects they hold.
  A task is the pointer-sized token the queues carry (\<open>void*\<close>). An event is named by
  its owner: \<open>thread_data[i].event\<close> is \<open>WorkerEvent i\<close>, the \<open>auto_reset_event\<close> local
  to \<open>generic_wait_handler\<close> running on thread \<open>j\<close> is \<open>LocalEvent j\<close>.
\<close>

datatype event = WorkerEvent nat | LocalEvent nat

text \<open>
  The value of the thread-local \<open>thread_wait_handler\<close> (line 417): one of the two wait
  handlers of scheduler.cpp, or a function of the user's.
\<close>

datatype wait_handler = HGeneric | HThreadpool | HUser

record pool =
  shutdown :: bool
  waiters :: "event list"
  waiters_lock :: "nat option"
  public_queue :: "task list"
  queues :: "nat \<Rightarrow> task list"
  events :: "event \<Rightarrow> bool"
  finished :: "nat \<Rightarrow> bool"
  ready :: "task \<Rightarrow> bool"
  conts :: "task \<Rightarrow> event list"
  thread_wait_handler :: "nat \<Rightarrow> wait_handler"

text \<open>
  \<open>waiters_lock\<close> holds the thread that owns the spinlock, \<open>events e\<close> is the latched
  signal of event \<open>e\<close>, \<open>finished i\<close> says that the thread behind
  \<open>thread_data[i].handle\<close> has returned from \<open>worker_thread\<close>, \<open>ready t\<close> that task \<open>t\<close>
  has completed, and \<open>conts t\<close> lists the events that the continuations attached to
  \<open>t\<close> will signal. \<open>thread_wait_handler tid\<close> is the copy of the thread-local variable
  of line 417 that belongs to thread \<open>tid\<close>; it starts as \<open>generic_wait_handler\<close>.
\<close>

definition init_pool :: pool where
  "init_pool = \<lparr>shutdown = False, waiters = [], waiters_lock = None, public_queue = [],
     queues = (\<lambda>_. []), events = (\<lambda>_. False), finished = (\<lambda>_. False),
     ready = (\<lambda>_. False), conts = (\<lambda>_. []), thread_wait_handler = (\<lambda>_. HGeneric)\<rparr>"

subsection \<open>The collaborators that are not in scheduler.cpp\<close>

text \<open>
  Modelled from the spec: work_steal_queue.h is missing. Section 4.1: \<open>push\<close> and \<open>pop\<close>
  work at the owner's end (last in, first out), \<open>steal\<close> takes from the opposite end,
  and each returns nothing on an empty deque.
\<close>

definition wsq_push :: "task \<Rightarrow> task list \<Rightarrow> task list" where
  "wsq_push t q = q @ [t]"

definition wsq_pop :: "task list \<Rightarrow> task option \<times> task list" where
  "wsq_pop q = (if q = [] then (None, q) else (Some (last q), butlast q))"

definition wsq_steal :: "task list \<Rightarrow> task option \<times> task list" where
  "wsq_steal q = (case q of [] \<Rightarrow> (None, []) | t # r \<Rightarrow> (Some t, r))"

text \<open>
  Modelled from the spec: fifo_queue.h is missing. Section 4.2: first in, first out;
  \<open>pop\<close> returns nothing on an empty queue.
\<close>

definition fifo_push :: "task \<Rightarrow> task list \<Rightarrow> task list" where
  "fifo_push t q = q @ [t]"

definition fifo_pop :: "task list \<Rightarrow> task option \<times> task list" where
  "fifo_pop q = (case q of [] \<Rightarrow> (None, []) | t # r \<Rightarrow> (Some t, r))"

text \<open>
  Modelled from the spec: auto_reset_event.h is missing. Section 4.3: \<open>signal\<close> latches,
  \<open>reset\<close> clears the latch, \<open>wait\<close> blocks until the event is signalled and returns
  after consuming the signal. A blocked call is the value \<open>None\<close>: the caller cannot
  take the step.
\<close>

definition event_signal :: "event \<Rightarrow> pool \<Rightarrow> pool" where
  "event_signal e s = s\<lparr>events := (events s)(e := True)\<rparr>"

definition event_reset :: "event \<Rightarrow> pool \<Rightarrow> pool" where
  "event_reset e s = s\<lparr>events := (events s)(e := False)\<rparr>"

definition event_wait :: "event \<Rightarrow> pool \<Rightarrow> pool option" where
  "event_wait e s = (if events s e then Some (s\<lparr>events := (events s)(e := False)\<rparr>) else None)"

text \<open>
  Modelled from the spec: the spinlock of async++.h is missing. \<open>lock\<close> blocks while
  another thread holds the lock.
\<close>

definition spin_lock :: "nat \<Rightarrow> pool \<Rightarrow> pool option" where
  "spin_lock tid s = (if waiters_lock s = None then Some (s\<lparr>waiters_lock := Some tid\<rparr>) else None)"

definition spin_unlock :: "pool \<Rightarrow> pool" where
  "spin_unlock s = s\<lparr>waiters_lock := None\<rparr>"

text \<open>
  Modelled from the spec: the task classes of async++.h are missing. Section 3:
  \<open>ready()\<close> says whether the task has completed; \<open>on_finish(cb)\<close> registers a callback
  that is invoked when the task completes; the callbacks run before \<open>ready()\<close> observes
  completion (section 5). Both callbacks of scheduler.cpp signal one event, so a callback
  is the event it signals. The spec does not say what \<open>on_finish\<close> does with a task that
  has completed already, so both outcomes are in the model and the \<open>choice\<close> that comes
  with the step (defined below) says which: with \<open>Late\<close> the callback is registered like
  any other, too late to be invoked by the completion; with any other choice it is
  invoked at once.
\<close>

datatype choice = Go | Perm "nat list" | CallSchedule task | CallInline task | CallWait task
  | CallSetHandler wait_handler | Late | Return | Exit

definition on_finish :: "choice \<Rightarrow> task \<Rightarrow> event \<Rightarrow> pool \<Rightarrow> pool" where
  "on_finish c T e s =
     (if ready s T \<and> c \<noteq> Late then event_signal e s
      else s\<lparr>conts := (conts s)(T := conts s T @ [e])\<rparr>)"

definition task_finish :: "task \<Rightarrow> pool \<Rightarrow> pool" where
  "task_finish t s =
     s\<lparr>events := (\<lambda>e. e \<in> set (conts s t) \<or> events s e),
       ready := (ready s)(t := True),
       conts := (conts s)(t := [])\<rparr>"

subsection \<open>The waiter list (lines 109-121)\<close>

text \<open>
  Both functions hold a \<open>lock_guard\<close> on \<open>waiters_lock\<close> around one operation of the
  vector; each is one step that can be taken when the lock is free.
\<close>

definition register_waiter :: "nat \<Rightarrow> event \<Rightarrow> pool \<Rightarrow> pool option" where
  "register_waiter tid thread_event s =
     (case spin_lock tid s of
        None \<Rightarrow> None
      | Some s1 \<Rightarrow> Some (spin_unlock (s1\<lparr>waiters := waiters s1 @ [thread_event]\<rparr>)))"

definition remove_waiter :: "nat \<Rightarrow> event \<Rightarrow> pool \<Rightarrow> pool option" where
  "remove_waiter tid thread_event s =
     (case spin_lock tid s of
        None \<Rightarrow> None
      | Some s1 \<Rightarrow> Some (spin_unlock (s1\<lparr>waiters := removeAll thread_event (waiters s1)\<rparr>)))"

section \<open>Threads, program points and traces\<close>

text \<open>
  Every operation a function of scheduler.cpp performs on the shared state is one
  action; an action records what the operation observed.
\<close>

datatype action =
    ALocalPop "task option"
  | APublicPop "task option"
  | ASteal nat "task option"
  | ARun task
  | AShutdown bool
  | ASetShutdown
  | ACreate
  | AReset
  | AFence
  | AWait
  | ASignal event
  | AReady bool
  | AOnFinish task
  | ARegister event
  | ARemove event
  | ALock
  | AUnlock
  | AEmpty bool
  | APopBack event
  | AClear "event list"
  | APushLocal nat task
  | APushPublic task
  | AJoin nat

text \<open>The program points of \<open>worker_thread\<close> (lines 238-277).\<close>

datatype wpc = W_LocalPop | W_PublicPop | W_Shutdown1 | W_Steal | W_Victims "nat list"
  | W_Reset | W_Register | W_Shutdown2 | W_Wait | W_Exit

text \<open>The program points of \<open>threadpool_wait_handler\<close> (lines 158-217).\<close>

datatype hpc = H_Ready1 | H_LocalPop | H_PublicPop | H_Steal | H_Victims "nat list"
  | H_Reset | H_Fence | H_Ready2 | H_AddCont | H_Register | H_Wait | H_Remove | H_Ready3
  | H_Return

text \<open>The program points of \<open>threadpool_scheduler_impl::schedule\<close> (lines 340-377).\<close>

datatype spc = S_Entry | S_Push | S_Empty1 | S_Lock | S_Empty2 | S_Pop
  | S_Unlock "event option" | S_Signal event | S_Return

text \<open>The program points of \<open>generic_wait_handler\<close> (lines 403-414).\<close>

datatype gpc = G_Create | G_Attach | G_Wait | G_Return

text \<open>The program points of the destructor of the pool (lines 317-335).\<close>

datatype dpc = D_SetShutdown | D_Lock | D_Signal nat | D_Clear | D_Unlock | D_Join nat
  | D_Drain | D_Done

text \<open>
  A thread is a stack of frames, the running call first. A frame of a function of
  scheduler.cpp holds its program point, its local variables and the trace of the
  actions this call has performed so far. \<open>Run t\<close> is the body of task \<open>t\<close>, \<open>User\<close> the
  code of a thread that does not belong to the pool, \<open>Custom T\<close> a call of a wait handler
  of the user's for task \<open>T\<close>; what such code does is not known, so it is left to the
  \<open>choice\<close> that comes with every step.
\<close>

datatype frame =
    Worker wpc "action list"
  | WaitHandler hpc task bool "action list"
  | Schedule spc task "action list"
  | Generic gpc task "action list"
  | Destructor dpc "action list"
  | Run task
  | User
  | Custom task

section \<open>The functions of scheduler.cpp, one step at a time\<close>

text \<open>
  Each function takes the number of workers \<open>N\<close>, the calling thread, the shared state
  and its own program point and locals, and returns the new shared state together with
  the frames that replace its own: one frame when the call goes on, two when it calls
  (the callee first), none when it returns. \<open>None\<close> means that the step cannot be taken:
  the thread is blocked, or it has ended.

  \<open>thread_id\<close> (line 72) is the worker's index in a worker thread and -1 elsewhere; the
  workers are the threads \<open>0..N-1\<close>.

  Every access to the shared state is one step, and the steps of the threads interleave:
  memory is sequentially consistent. The fence of line 187 is recorded as an action and
  changes nothing.
\<close>

definition thread_id :: "nat \<Rightarrow> nat \<Rightarrow> nat option" where
  "thread_id N tid = (if tid < N then Some tid else None)"

text \<open>
  \<open>steal_task\<close> (lines 124-146). The shuffled list of victims comes with the step, since
  the order \<open>std::shuffle\<close> produces is the library's; it is a permutation of
  \<open>0..N-1\<close>. \<open>steal_task\<close> is one turn of the loop over the victims: \<open>Inl r\<close> returns
  \<open>r\<close>, \<open>Inr vs\<close> goes on with the victims that are left.
\<close>

definition valid_shuffle :: "nat \<Rightarrow> nat list \<Rightarrow> bool" where
  "valid_shuffle N vs = (length vs = N \<and> distinct vs \<and> list_all (\<lambda>i. i < N) vs)"

fun steal_task :: "nat \<Rightarrow> nat list \<Rightarrow> pool \<Rightarrow> action list \<times> pool \<times> (task option + nat list)" where
  "steal_task me [] s = ([], s, Inl None)"
| "steal_task me (i # victims) s =
     (if i = me then ([], s, Inr victims)
      else (case wsq_steal (queues s i) of
              (Some t, q) \<Rightarrow> ([ASteal i (Some t)], s\<lparr>queues := (queues s)(i := q)\<rparr>, Inl (Some t))
            | (None, q) \<Rightarrow> ([ASteal i None], s, Inr victims)))"

text \<open>
  \<open>set_thread_wait_handler\<close> (lines 428-433) replaces the wait handler of the calling
  thread and returns the one it had. \<open>wait_for_task\<close> (lines 420-424) calls the wait
  handler the calling thread has at that moment.
\<close>

definition set_thread_wait_handler :: "nat \<Rightarrow> wait_handler \<Rightarrow> pool \<Rightarrow> wait_handler \<times> pool" where
  "set_thread_wait_handler tid handler s =
     (thread_wait_handler s tid, s\<lparr>thread_wait_handler := (thread_wait_handler s)(tid := handler)\<rparr>)"

definition wait_for_task :: "nat \<Rightarrow> task \<Rightarrow> pool \<Rightarrow> frame" where
  "wait_for_task tid wait_task s =
     (case thread_wait_handler s tid of
        HGeneric \<Rightarrow> Generic G_Create wait_task []
      | HThreadpool \<Rightarrow> WaitHandler H_Ready1 wait_task False []
      | HUser \<Rightarrow> Custom wait_task)"

text \<open>\<open>worker_thread(id)\<close>, the main loop (lines 238-277); \<open>me\<close> is its \<open>id\<close>.\<close>

fun worker_thread :: "nat \<Rightarrow> nat \<Rightarrow> choice \<Rightarrow> pool \<Rightarrow> wpc \<Rightarrow> action list \<Rightarrow> (pool \<times> frame list) option" where
  "worker_thread N me c s W_LocalPop tr =
     (case wsq_pop (queues s me) of
        (Some t, q) \<Rightarrow> Some (s\<lparr>queues := (queues s)(me := q)\<rparr>,
                            [Run t, Worker W_LocalPop (tr @ [ALocalPop (Some t), ARun t])])
      | (None, q) \<Rightarrow> Some (s, [Worker W_PublicPop (tr @ [ALocalPop None])]))"
| "worker_thread N me c s W_PublicPop tr =
     (case fifo_pop (public_queue s) of
        (Some t, q) \<Rightarrow> Some (s\<lparr>public_queue := q\<rparr>,
                            [Run t, Worker W_LocalPop (tr @ [APublicPop (Some t), ARun t])])
      | (None, q) \<Rightarrow> Some (s, [Worker W_Shutdown1 (tr @ [APublicPop None])]))"
| "worker_thread N me c s W_Shutdown1 tr =
     (if shutdown s
      then Some (s\<lparr>finished := (finished s)(me := True)\<rparr>, [Worker W_Exit (tr @ [AShutdown True])])
      else Some (s, [Worker W_Steal (tr @ [AShutdown False])]))"
| "worker_thread N me c s W_Steal tr =
     (case c of
        Perm victims \<Rightarrow> if valid_shuffle N victims then Some (s, [Worker (W_Victims victims) tr]) else None
      | _ \<Rightarrow> None)"
| "worker_thread N me c s (W_Victims victims) tr =
     (case steal_task me victims s of
        (as, s', Inr vs) \<Rightarrow> Some (s', [Worker (W_Victims vs) (tr @ as)])
      | (as, s', Inl (Some t)) \<Rightarrow> Some (s', [Run t, Worker W_LocalPop (tr @ as @ [ARun t])])
      | (as, s', Inl None) \<Rightarrow> Some (s', [Worker W_Reset (tr @ as)]))"
| "worker_thread N me c s W_Reset tr =
     Some (event_reset (WorkerEvent me) s, [Worker W_Register (tr @ [AReset])])"
| "worker_thread N me c s W_Register tr =
     (case register_waiter me (WorkerEvent me) s of
        None \<Rightarrow> None
      | Some s' \<Rightarrow> Some (s', [Worker W_Shutdown2 (tr @ [ARegister (WorkerEvent me)])]))"
| "worker_thread N me c s W_Shutdown2 tr =
     (if shutdown s
      then Some (s\<lparr>finished := (finished s)(me := True)\<rparr>, [Worker W_Exit (tr @ [AShutdown True])])
      else Some (s, [Worker W_Wait (tr @ [AShutdown False])]))"
| "worker_thread N me c s W_Wait tr =
     (case event_wait (WorkerEvent me) s of
        None \<Rightarrow> None
      | Some s' \<Rightarrow> Some (s', [Worker W_PublicPop (tr @ [AWait])]))"
| "worker_thread N me c s W_Exit tr = None"

text \<open>
  \<open>threadpool_wait_handler(wait_task)\<close> (lines 149-218); \<open>added\<close> is the local
  \<open>added_continuation\<close>.
\<close>

fun threadpool_wait_handler ::
  "nat \<Rightarrow> nat \<Rightarrow> choice \<Rightarrow> pool \<Rightarrow> hpc \<Rightarrow> task \<Rightarrow> bool \<Rightarrow> action list \<Rightarrow> (pool \<times> frame list) option" where
  "threadpool_wait_handler N me c s H_Ready1 T added tr =
     (if ready s T then Some (s, [WaitHandler H_Return T added (tr @ [AReady True])])
      else Some (s, [WaitHandler H_LocalPop T added (tr @ [AReady False])]))"
| "threadpool_wait_handler N me c s H_LocalPop T added tr =
     (case wsq_pop (queues s me) of
        (Some t, q) \<Rightarrow> Some (s\<lparr>queues := (queues s)(me := q)\<rparr>,
                            [Run t, WaitHandler H_Ready1 T added (tr @ [ALocalPop (Some t), ARun t])])
      | (None, q) \<Rightarrow> Some (s, [WaitHandler H_PublicPop T added (tr @ [ALocalPop None])]))"
| "threadpool_wait_handler N me c s H_PublicPop T added tr =
     (case fifo_pop (public_queue s) of
        (Some t, q) \<Rightarrow> Some (s\<lparr>public_queue := q\<rparr>,
                            [Run t, WaitHandler H_Ready1 T added (tr @ [APublicPop (Some t), ARun t])])
      | (None, q) \<Rightarrow> Some (s, [WaitHandler H_Steal T added (tr @ [APublicPop None])]))"
| "threadpool_wait_handler N me c s H_Steal T added tr =
     (case c of
        Perm victims \<Rightarrow>
          if valid_shuffle N victims then Some (s, [WaitHandler (H_Victims victims) T added tr]) else None
      | _ \<Rightarrow> None)"
| "threadpool_wait_handler N me c s (H_Victims victims) T added tr =
     (case steal_task me victims s of
        (as, s', Inr vs) \<Rightarrow> Some (s', [WaitHandler (H_Victims vs) T added (tr @ as)])
      | (as, s', Inl (Some t)) \<Rightarrow> Some (s', [Run t, WaitHandler H_Ready1 T added (tr @ as @ [ARun t])])
      | (as, s', Inl None) \<Rightarrow> Some (s', [WaitHandler H_Reset T added (tr @ as)]))"
| "threadpool_wait_handler N me c s H_Reset T added tr =
     Some (event_reset (WorkerEvent me) s, [WaitHandler H_Fence T added (tr @ [AReset])])"
| "threadpool_wait_handler N me c s H_Fence T added tr =
     Some (s, [WaitHandler H_Ready2 T added (tr @ [AFence])])"
| "threadpool_wait_handler N me c s H_Ready2 T added tr =
     (if ready s T then Some (s, [WaitHandler H_Return T added (tr @ [AReady True])])
      else Some (s, [WaitHandler H_AddCont T added (tr @ [AReady False])]))"
| "threadpool_wait_handler N me c s H_AddCont T added tr =
     (if \<not> added
      then Some (on_finish c T (WorkerEvent me) s, [WaitHandler H_Register T True (tr @ [AOnFinish T])])
      else Some (s, [WaitHandler H_Register T added tr]))"
| "threadpool_wait_handler N me c s H_Register T added tr =
     (case register_waiter me (WorkerEvent me) s of
        None \<Rightarrow> None
      | Some s' \<Rightarrow> Some (s', [WaitHandler H_Wait T added (tr @ [ARegister (WorkerEvent me)])]))"
| "threadpool_wait_handler N me c s H_Wait T added tr =
     (case event_wait (WorkerEvent me) s of
        None \<Rightarrow> None
      | Some s' \<Rightarrow> Some (s', [WaitHandler H_Remove T added (tr @ [AWait])]))"
| "threadpool_wait_handler N me c s H_Remove T added tr =
     (case remove_waiter me (WorkerEvent me) s of
        None \<Rightarrow> None
      | Some s' \<Rightarrow> Some (s', [WaitHandler H_Ready3 T added (tr @ [ARemove (WorkerEvent me)])]))"
| "threadpool_wait_handler N me c s H_Ready3 T added tr =
     (if ready s T then Some (s, [WaitHandler H_Return T added (tr @ [AReady True])])
      else Some (s, [WaitHandler H_PublicPop T added (tr @ [AReady False])]))"
| "threadpool_wait_handler N me c s H_Return T added tr = Some (s, [])"

text \<open>
  \<open>threadpool_scheduler_impl::schedule(t)\<close> (lines 338-377). \<open>back()\<close> of an empty
  vector has no defined behaviour: the step at \<open>S_Pop\<close> cannot be taken then.
\<close>

fun schedule :: "nat \<Rightarrow> nat \<Rightarrow> pool \<Rightarrow> spc \<Rightarrow> task \<Rightarrow> action list \<Rightarrow> (pool \<times> frame list) option" where
  "schedule N tid s S_Entry t tr =
     (if shutdown s then Some (s, [Run t, Schedule S_Return t (tr @ [AShutdown True, ARun t])])
      else Some (s, [Schedule S_Push t (tr @ [AShutdown False])]))"
| "schedule N tid s S_Push t tr =
     (case thread_id N tid of
        Some i \<Rightarrow> Some (s\<lparr>queues := (queues s)(i := wsq_push t (queues s i))\<rparr>,
                       [Schedule S_Empty1 t (tr @ [APushLocal i t])])
      | None \<Rightarrow> Some (s\<lparr>public_queue := fifo_push t (public_queue s)\<rparr>,
                     [Schedule S_Empty1 t (tr @ [APushPublic t])]))"
| "schedule N tid s S_Empty1 t tr =
     (if waiters s = [] then Some (s, [Schedule S_Return t (tr @ [AEmpty True])])
      else Some (s, [Schedule S_Lock t (tr @ [AEmpty False])]))"
| "schedule N tid s S_Lock t tr =
     (case spin_lock tid s of
        None \<Rightarrow> None
      | Some s' \<Rightarrow> Some (s', [Schedule S_Empty2 t (tr @ [ALock])]))"
| "schedule N tid s S_Empty2 t tr =
     (if waiters s = [] then Some (s, [Schedule (S_Unlock None) t (tr @ [AEmpty True])])
      else Some (s, [Schedule S_Pop t (tr @ [AEmpty False])]))"
| "schedule N tid s S_Pop t tr =
     (if waiters s = [] then None
      else Some (s\<lparr>waiters := butlast (waiters s)\<rparr>,
                 [Schedule (S_Unlock (Some (last (waiters s)))) t (tr @ [APopBack (last (waiters s))])]))"
| "schedule N tid s (S_Unlock wakeup) t tr =
     Some (spin_unlock s,
           [Schedule (case wakeup of None \<Rightarrow> S_Return | Some e \<Rightarrow> S_Signal e) t (tr @ [AUnlock])])"
| "schedule N tid s (S_Signal wakeup) t tr =
     Some (event_signal wakeup s, [Schedule S_Return t (tr @ [ASignal wakeup])])"
| "schedule N tid s S_Return t tr = Some (s, [])"

text \<open>\<open>generic_wait_handler(wait_task)\<close> (lines 401-414).\<close>

fun generic_wait_handler ::
  "nat \<Rightarrow> choice \<Rightarrow> pool \<Rightarrow> gpc \<Rightarrow> task \<Rightarrow> action list \<Rightarrow> (pool \<times> frame list) option" where
  "generic_wait_handler tid c s G_Create T tr =
     Some (event_reset (LocalEvent tid) s, [Generic G_Attach T (tr @ [ACreate])])"
| "generic_wait_handler tid c s G_Attach T tr =
     Some (on_finish c T (LocalEvent tid) s, [Generic G_Wait T (tr @ [AOnFinish T])])"
| "generic_wait_handler tid c s G_Wait T tr =
     (case event_wait (LocalEvent tid) s of
        None \<Rightarrow> None
      | Some s' \<Rightarrow> Some (s', [Generic G_Return T (tr @ [AWait])]))"
| "generic_wait_handler tid c s G_Return T tr = Some (s, [])"

text \<open>
  The destructor \<open>~threadpool_scheduler_impl\<close> (lines 315-335). \<open>join\<close> blocks until the
  worker has returned. \<open>D_Done\<close> is the end of the destructor.
\<close>

fun destructor :: "nat \<Rightarrow> nat \<Rightarrow> pool \<Rightarrow> dpc \<Rightarrow> action list \<Rightarrow> (pool \<times> frame list) option" where
  "destructor N tid s D_SetShutdown tr =
     Some (s\<lparr>shutdown := True\<rparr>, [Destructor D_Lock (tr @ [ASetShutdown])])"
| "destructor N tid s D_Lock tr =
     (case spin_lock tid s of
        None \<Rightarrow> None
      | Some s' \<Rightarrow> Some (s', [Destructor (D_Signal 0) (tr @ [ALock])]))"
| "destructor N tid s (D_Signal k) tr =
     (if k < length (waiters s)
      then Some (event_signal (waiters s ! k) s,
                 [Destructor (D_Signal (Suc k)) (tr @ [ASignal (waiters s ! k)])])
      else Some (s, [Destructor D_Clear tr]))"
| "destructor N tid s D_Clear tr =
     Some (s\<lparr>waiters := []\<rparr>, [Destructor D_Unlock (tr @ [AClear (waiters s)])])"
| "destructor N tid s D_Unlock tr =
     Some (spin_unlock s, [Destructor (D_Join 0) (tr @ [AUnlock])])"
| "destructor N tid s (D_Join i) tr =
     (if i < N
      then (if finished s i then Some (s, [Destructor (D_Join (Suc i)) (tr @ [AJoin i])]) else None)
      else Some (s, [Destructor D_Drain tr]))"
| "destructor N tid s D_Drain tr =
     (case fifo_pop (public_queue s) of
        (Some t, q) \<Rightarrow> Some (s\<lparr>public_queue := q\<rparr>,
                            [Run t, Destructor D_Drain (tr @ [APublicPop (Some t), ARun t])])
      | (None, q) \<Rightarrow> Some (s, [Destructor D_Done (tr @ [APublicPop None])]))"
| "destructor N tid s D_Done tr = None"

text \<open>
  \<open>inline_scheduler_impl::schedule(t)\<close> (lines 383-386) runs the task in the caller.
\<close>

definition inline_schedule :: "task \<Rightarrow> frame" where
  "inline_schedule t = Run t"

text \<open>
  The body of a task, the code of a thread outside the pool and a wait handler of the
  user's may submit a task to the pool or to the inline scheduler, wait for a task,
  replace the wait handler of their thread, or end; a task that ends completes, a wait
  handler that ends returns to its caller. The thread \<open>N\<close> is the one that tears the
  process down: it ends by running the destructor of the pool.
\<close>

fun run_task :: "nat \<Rightarrow> nat \<Rightarrow> choice \<Rightarrow> pool \<Rightarrow> task \<Rightarrow> (pool \<times> frame list) option" where
  "run_task N tid (CallSchedule t') s t = Some (s, [Schedule S_Entry t' [], Run t])"
| "run_task N tid (CallInline t') s t = Some (s, [inline_schedule t', Run t])"
| "run_task N tid (CallWait T) s t = Some (s, [wait_for_task tid T s, Run t])"
| "run_task N tid (CallSetHandler h) s t = Some (snd (set_thread_wait_handler tid h s), [Run t])"
| "run_task N tid Return s t = Some (task_finish t s, [])"
| "run_task N tid _ s t = None"

fun user_code :: "nat \<Rightarrow> nat \<Rightarrow> choice \<Rightarrow> pool \<Rightarrow> (pool \<times> frame list) option" where
  "user_code N tid (CallSchedule t) s = Some (s, [Schedule S_Entry t [], User])"
| "user_code N tid (CallInline t) s = Some (s, [inline_schedule t, User])"
| "user_code N tid (CallWait T) s = Some (s, [wait_for_task tid T s, User])"
| "user_code N tid (CallSetHandler h) s = Some (snd (set_thread_wait_handler tid h s), [User])"
| "user_code N tid Exit s = (if tid = N then Some (s, [Destructor D_SetShutdown []]) else None)"
| "user_code N tid _ s = None"

fun user_wait_handler :: "nat \<Rightarrow> nat \<Rightarrow> choice \<Rightarrow> pool \<Rightarrow> task \<Rightarrow> (pool \<times> frame list) option" where
  "user_wait_handler N tid (CallSchedule t) s T = Some (s, [Schedule S_Entry t [], Custom T])"
| "user_wait_handler N tid (CallInline t) s T = Some (s, [inline_schedule t, Custom T])"
| "user_wait_handler N tid (CallWait T') s T = Some (s, [wait_for_task tid T' s, Custom T])"
| "user_wait_handler N tid (CallSetHandler h) s T =
     Some (snd (set_thread_wait_handler tid h s), [Custom T])"
| "user_wait_handler N tid Return s T = Some (s, [])"
| "user_wait_handler N tid _ s T = None"

section \<open>The whole program\<close>

record config =
  pool :: pool
  threads :: "nat \<Rightarrow> frame list"

text \<open>
  \<open>threadpool_wait_handler\<close> indexes \<open>thread_data\<close> with \<open>thread_id\<close> (line 152). In a
  thread that is no worker \<open>thread_id\<close> is -1 and the behaviour is not defined: there the
  call takes no step.
\<close>

definition frame_step :: "nat \<Rightarrow> nat \<Rightarrow> choice \<Rightarrow> pool \<Rightarrow> frame \<Rightarrow> (pool \<times> frame list) option" where
  "frame_step N tid c s f =
     (case f of
        Worker pc tr \<Rightarrow> worker_thread N tid c s pc tr
      | WaitHandler pc T added tr \<Rightarrow>
          (case thread_id N tid of
             None \<Rightarrow> None
           | Some me \<Rightarrow> threadpool_wait_handler N me c s pc T added tr)
      | Schedule pc t tr \<Rightarrow> schedule N tid s pc t tr
      | Generic pc T tr \<Rightarrow> generic_wait_handler tid c s pc T tr
      | Destructor pc tr \<Rightarrow> destructor N tid s pc tr
      | Run t \<Rightarrow> run_task N tid c s t
      | User \<Rightarrow> user_code N tid c s
      | Custom T \<Rightarrow> user_wait_handler N tid c s T)"

text \<open>One step of the program: the thread \<open>tid\<close> takes one step of its running call.\<close>

definition step :: "nat \<Rightarrow> nat \<times> choice \<Rightarrow> config \<Rightarrow> config option" where
  "step N a cfg =
     (case threads cfg (fst a) of
        [] \<Rightarrow> None
      | f # stack \<Rightarrow>
          (case frame_step N (fst a) (snd a) (pool cfg) f of
             None \<Rightarrow> None
           | Some (s', fs) \<Rightarrow> Some \<lparr>pool = s', threads = (threads cfg)(fst a := fs @ stack)\<rparr>))"

fun run_steps :: "nat \<Rightarrow> (nat \<times> choice) list \<Rightarrow> config \<Rightarrow> config option" where
  "run_steps N [] cfg = Some cfg"
| "run_steps N (a # as) cfg = (case step N a cfg of None \<Rightarrow> None | Some cfg' \<Rightarrow> run_steps N as cfg')"

text \<open>
  After the constructor (lines 298-311): the queues and the waiter list are empty, the
  \<open>N\<close> workers are at the top of their main loop, where each has installed
  \<open>threadpool_wait_handler\<close> as its wait handler (line 228), and every other thread runs
  code of its own.
\<close>

definition init :: "nat \<Rightarrow> config" where
  "init N =
     \<lparr>pool = init_pool\<lparr>thread_wait_handler := (\<lambda>tid. if tid < N then HThreadpool else HGeneric)\<rparr>,
      threads = (\<lambda>tid. if tid < N then [Worker W_LocalPop []] else [User])\<rparr>"

definition exec :: "nat \<Rightarrow> (nat \<times> choice) list \<Rightarrow> config option" where
  "exec N sched = run_steps N sched (init N)"

section \<open>Properties of traces\<close>

text \<open>
  \<open>ends_with ys tr\<close>: the trace \<open>tr\<close> ends with the actions \<open>ys\<close>.
  \<open>preceded x ys tr\<close>: every \<open>x\<close> in \<open>tr\<close> comes right after the actions \<open>ys\<close>.
  \<open>followed x y tr\<close>: whatever comes right after an \<open>x\<close> in \<open>tr\<close> is \<open>y\<close>.
\<close>

definition ends_with :: "'a list \<Rightarrow> 'a list \<Rightarrow> bool" where
  "ends_with ys tr = (take (length ys) (rev tr) = rev ys)"

fun preceded_rev :: "'a \<Rightarrow> 'a list \<Rightarrow> 'a list \<Rightarrow> bool" where
  "preceded_rev x ys [] = True"
| "preceded_rev x ys (a # tr) = ((a \<noteq> x \<or> take (length ys) tr = ys) \<and> preceded_rev x ys tr)"

definition preceded :: "'a \<Rightarrow> 'a list \<Rightarrow> 'a list \<Rightarrow> bool" where
  "preceded x ys tr = preceded_rev x (rev ys) (rev tr)"

fun followed_rev :: "'a \<Rightarrow> 'a \<Rightarrow> 'a list \<Rightarrow> bool" where
  "followed_rev x y (a # b # tr) = ((b \<noteq> x \<or> a = y) \<and> followed_rev x y (b # tr))"
| "followed_rev x y tr = True"

definition followed :: "'a \<Rightarrow> 'a \<Rightarrow> 'a list \<Rightarrow> bool" where
  "followed x y tr = followed_rev x y (rev tr)"

text \<open>A property of frames holds of a configuration when every frame of every thread has it.\<close>

definition frames_ok :: "(nat \<Rightarrow> frame \<Rightarrow> bool) \<Rightarrow> config \<Rightarrow> bool" where
  "frames_ok P cfg = (\<forall>tid. list_all (P tid) (threads cfg tid))"

section \<open>Properties of the functions\<close>

text \<open>The frames of a thread after a run, none when the run is not possible.\<close>

definition thread_of :: "config option \<Rightarrow> nat \<Rightarrow> frame list" where
  "thread_of r tid = (case r of None \<Rightarrow> [] | Some cfg \<Rightarrow> threads cfg tid)"

text \<open>
  The main loop of worker \<open>i\<close>: every \<open>wait()\<close> comes right after \<open>reset()\<close>,
  \<open>register_waiter\<close> and a read of \<open>shutdown\<close> that found it unset, and the loop has no
  fence. The last three lines tie the program point to the end of the trace: the
  worker is at \<open>register_waiter\<close> exactly when its last action is \<open>reset()\<close>, at the
  second read of \<open>shutdown\<close> exactly when its last action is \<open>register_waiter\<close>, and at
  \<open>wait()\<close> exactly when the read that followed \<open>register_waiter\<close> found the flag unset.
\<close>

fun park_inv :: "nat \<Rightarrow> frame \<Rightarrow> bool" where
  "park_inv i (Worker pc tr) =
     (preceded AWait [AReset, ARegister (WorkerEvent i), AShutdown False] tr
      \<and> AFence \<notin> set tr
      \<and> (pc = W_Register \<longleftrightarrow> ends_with [AReset] tr)
      \<and> (pc = W_Shutdown2 \<longleftrightarrow> ends_with [AReset, ARegister (WorkerEvent i)] tr)
      \<and> (pc = W_Wait \<longleftrightarrow> ends_with [AReset, ARegister (WorkerEvent i), AShutdown False] tr))"
| "park_inv i _ = True"

text \<open>
  Runs with one worker. \<open>park\<close>: the worker finds no task and resets its event.
  \<open>parked\<close>: it goes on to register and wait. \<open>park_and_wake\<close>: thread 1, outside
  the pool, then submits task 7, which wakes the worker.
\<close>

definition park :: "(nat \<times> choice) list" where
  "park = [(0, Go), (0, Go), (0, Go), (0, Perm [0]), (0, Go), (0, Go), (0, Go)]"

definition parked :: "(nat \<times> choice) list" where
  "parked = [(0, Go), (0, Go), (0, Go), (0, Perm [0]), (0, Go), (0, Go), (0, Go), (0, Go), (0, Go)]"

definition park_and_wake :: "(nat \<times> choice) list" where
  "park_and_wake =
     [(0, Go), (0, Go), (0, Go), (0, Perm [0]), (0, Go), (0, Go), (0, Go), (0, Go), (0, Go),
      (1, CallSchedule 7), (1, Go), (1, Go), (1, Go), (1, Go), (1, Go), (1, Go), (1, Go), (1, Go),
      (0, Go)]"

text \<open>
  A call of \<open>threadpool_wait_handler\<close> for task \<open>T\<close>: the continuations it has attached
  are as many as \<open>added_continuation\<close> says, each is on \<open>T\<close> and comes right after
  \<open>reset()\<close>, the fence and a \<open>ready()\<close> that answered no; a \<open>ready()\<close> that answered yes
  is the last action of the call.
\<close>

fun is_on_finish :: "action \<Rightarrow> bool" where
  "is_on_finish (AOnFinish T) = True"
| "is_on_finish _ = False"

fun cont_inv :: "nat \<Rightarrow> frame \<Rightarrow> bool" where
  "cont_inv i (WaitHandler pc T added tr) =
     (length (filter is_on_finish tr) = (if added then 1 else 0)
      \<and> list_all (\<lambda>a. is_on_finish a \<longrightarrow> a = AOnFinish T) tr
      \<and> preceded (AOnFinish T) [AReset, AFence, AReady False] tr
      \<and> (AReady True \<notin> set tr
           \<or> pc = H_Return \<and> ends_with [AReady True] tr \<and> AReady True \<notin> set (butlast tr))
      \<and> (pc = H_Fence \<longrightarrow> ends_with [AReset] tr)
      \<and> (pc = H_Ready2 \<longrightarrow> ends_with [AReset, AFence] tr)
      \<and> (pc = H_AddCont \<longrightarrow> ends_with [AReset, AFence, AReady False] tr))"
| "cont_inv i _ = True"

text \<open>
  Two runs with two workers. In \<open>nested_attach\<close> worker 0 runs task 5, which waits for
  task 9; the worker finds nothing to run and attaches the continuation. In
  \<open>nested_ready\<close> worker 1 completes task 9 after worker 0 has reset its event.
\<close>

definition nested_attach :: "(nat \<times> choice) list" where
  "nested_attach =
     [(2, CallSchedule 5), (2, Go), (2, Go), (2, Go), (2, Go),
      (0, Go), (0, Go), (0, CallWait 9),
      (0, Go), (0, Go), (0, Go), (0, Perm [0, 1]), (0, Go), (0, Go), (0, Go),
      (0, Go), (0, Go), (0, Go), (0, Go)]"

definition nested_ready :: "(nat \<times> choice) list" where
  "nested_ready =
     [(2, CallSchedule 5), (2, Go), (2, Go), (2, Go), (2, Go),
      (2, CallSchedule 9), (2, Go), (2, Go), (2, Go), (2, Go),
      (0, Go), (0, Go), (1, Go), (1, Go), (0, CallWait 9),
      (0, Go), (0, Go), (0, Go), (0, Perm [1, 0]), (0, Go), (0, Go), (0, Go),
      (0, Go), (0, Go), (1, Return), (0, Go)]"

text \<open>
  The frames that own \<open>waiters_lock\<close>: \<open>schedule\<close> between its \<open>lock_guard\<close> and the
  end of that block, the destructor inside its block. \<open>lock_inv\<close>: only the running call
  of a thread can own the lock, and it does exactly when the lock names the thread.
\<close>

fun holds_lock :: "frame \<Rightarrow> bool" where
  "holds_lock (Schedule pc t tr) =
     (case pc of S_Empty2 \<Rightarrow> True | S_Pop \<Rightarrow> True | S_Unlock w \<Rightarrow> True | _ \<Rightarrow> False)"
| "holds_lock (Destructor pc tr) =
     (case pc of D_Signal k \<Rightarrow> True | D_Clear \<Rightarrow> True | D_Unlock \<Rightarrow> True | _ \<Rightarrow> False)"
| "holds_lock _ = False"

definition top_holds_lock :: "config \<Rightarrow> nat \<Rightarrow> bool" where
  "top_holds_lock cfg tid = (case threads cfg tid of [] \<Rightarrow> False | f # _ \<Rightarrow> holds_lock f)"

definition lock_inv :: "config \<Rightarrow> bool" where
  "lock_inv cfg =
     (\<forall>tid. list_all (\<lambda>f. \<not> holds_lock f) (tl (threads cfg tid))
          \<and> (top_holds_lock cfg tid \<longleftrightarrow> waiters_lock (pool cfg) = Some tid))"

text \<open>
  The trace of the destructor, program point by program point: the flag, the lock, one
  signal for each waiter in the list, the clearing of the list (the action records the
  list that was cleared), the release of the lock, the joins of the workers \<open>0..N-1\<close>,
  and the tasks drained from the public queue. The list is empty from its clearing to
  the release of the lock. In \<open>schedule\<close>, the list is not empty where \<open>back()\<close> is
  called.
\<close>

definition shutdown_prefix :: "event list \<Rightarrow> action list" where
  "shutdown_prefix ws = [ASetShutdown, ALock] @ map ASignal ws @ [AClear ws, AUnlock]"

definition drained :: "task list \<Rightarrow> action list" where
  "drained ts = concat (map (\<lambda>t. [APublicPop (Some t), ARun t]) ts)"

fun waiters_ok :: "nat \<Rightarrow> pool \<Rightarrow> frame \<Rightarrow> bool" where
  "waiters_ok N s (Schedule pc t tr) = (pc = S_Pop \<longrightarrow> waiters s \<noteq> [])"
| "waiters_ok N s (Destructor D_SetShutdown tr) = (tr = [])"
| "waiters_ok N s (Destructor D_Lock tr) = (tr = [ASetShutdown])"
| "waiters_ok N s (Destructor (D_Signal k) tr) =
     (k \<le> length (waiters s) \<and> tr = [ASetShutdown, ALock] @ map ASignal (take k (waiters s)))"
| "waiters_ok N s (Destructor D_Clear tr) = (tr = [ASetShutdown, ALock] @ map ASignal (waiters s))"
| "waiters_ok N s (Destructor D_Unlock tr) =
     (waiters s = [] \<and> (\<exists>ws. tr = [ASetShutdown, ALock] @ map ASignal ws @ [AClear ws]))"
| "waiters_ok N s (Destructor (D_Join k) tr) =
     (k \<le> N \<and> (\<exists>ws. tr = shutdown_prefix ws @ map AJoin [0..<k]))"
| "waiters_ok N s (Destructor D_Drain tr) =
     (\<exists>ws ts. tr = shutdown_prefix ws @ map AJoin [0..<N] @ drained ts)"
| "waiters_ok N s (Destructor D_Done tr) =
     (\<exists>ws ts. tr = shutdown_prefix ws @ map AJoin [0..<N] @ drained ts @ [APublicPop None])"
| "waiters_ok N s _ = True"

definition waiters_inv :: "nat \<Rightarrow> config \<Rightarrow> bool" where
  "waiters_inv N cfg = (lock_inv cfg \<and> (\<forall>tid. list_all (waiters_ok N (pool cfg)) (threads cfg tid)))"

text \<open>
  A worker thread is its main loop, with the calls it has made on top. The deque of a
  worker is empty whenever its main loop is past the pop of line 240 with no task
  running, and the worker has returned exactly when the main loop is at its end.
\<close>

fun is_worker :: "frame \<Rightarrow> bool" where
  "is_worker (Worker pc tr) = True"
| "is_worker _ = False"

definition worker_ok :: "pool \<Rightarrow> nat \<Rightarrow> frame list \<Rightarrow> bool" where
  "worker_ok s i stack =
     (\<exists>fs pc tr. stack = fs @ [Worker pc tr] \<and> list_all (\<lambda>f. \<not> is_worker f) fs
        \<and> (fs \<noteq> [] \<longrightarrow> pc = W_LocalPop)
        \<and> (pc \<noteq> W_LocalPop \<longrightarrow> queues s i = [])
        \<and> (finished s i \<longleftrightarrow> pc = W_Exit))"

definition worker_inv :: "nat \<Rightarrow> config \<Rightarrow> bool" where
  "worker_inv N cfg = (\<forall>i<N. worker_ok (pool cfg) i (threads cfg i))"

text \<open>The destructor has passed \<open>join\<close> only for workers that have returned.\<close>

fun joined :: "nat \<Rightarrow> pool \<Rightarrow> frame \<Rightarrow> bool" where
  "joined N s (Destructor (D_Join k) tr) = (\<forall>i<k. finished s i)"
| "joined N s (Destructor D_Drain tr) = (\<forall>i<N. finished s i)"
| "joined N s (Destructor D_Done tr) = (\<forall>i<N. finished s i)"
| "joined N s _ = True"

definition join_inv :: "nat \<Rightarrow> config \<Rightarrow> bool" where
  "join_inv N cfg = (\<forall>tid. list_all (joined N (pool cfg)) (threads cfg tid))"

text \<open>
  Runs with one worker that end with the destructor. \<open>exiting\<close>: the worker parks,
  thread 2 enters \<open>schedule(7)\<close> and reads \<open>shutdown\<close>, and thread 1 starts the
  destructor. \<open>late_push\<close>: the destructor then runs to its end, the worker returning
  when it is signalled, and thread 2 pushes its task afterwards.
\<close>

definition exiting :: "(nat \<times> choice) list" where
  "exiting = parked @ [(2, CallSchedule 7), (2, Go), (1, Exit)]"

definition late_push :: "(nat \<times> choice) list" where
  "late_push =
     parked @
     [(2, CallSchedule 7), (2, Go),
      (1, Exit), (1, Go), (1, Go), (1, Go), (1, Go), (1, Go), (1, Go),
      (0, Go), (0, Go), (0, Go),
      (1, Go), (1, Go), (1, Go),
      (2, Go)]"

text \<open>
  A run with one worker in which the destructor cannot return. The worker runs task 5,
  which waits for task 9; the nested wait finds nothing to run, registers and waits.
  Thread 1 starts the destructor, which signals the worker and comes to \<open>join\<close>. The
  nested wait wakes, finds that task 9 is not complete and nothing to run, registers
  and waits again: it never looks at \<open>shutdown\<close>.

  \<open>blocked_inv\<close> describes the configurations that follow as long as no thread
  submits or runs task 9: \<open>shutdown\<close> is set, the event of the worker is not signalled
  and no continuation of another task would signal it, the worker is inside \<open>wait()\<close>
  of the nested wait, the destructor is at \<open>join(0)\<close>, and the other threads are
  outside \<open>schedule\<close> or on its inline path, with no worker loop and no destructor
  of their own.
\<close>

definition nested_shutdown :: "(nat \<times> choice) list" where
  "nested_shutdown =
     [(2, CallSchedule 5), (2, Go), (2, Go), (2, Go), (2, Go),
      (0, Go), (0, Go), (0, CallWait 9),
      (0, Go), (0, Go), (0, Go), (0, Perm [0]), (0, Go), (0, Go),
      (0, Go), (0, Go), (0, Go), (0, Go), (0, Go),
      (1, Exit), (1, Go), (1, Go), (1, Go), (1, Go), (1, Go), (1, Go),
      (0, Go), (0, Go), (0, Go),
      (0, Go), (0, Perm [0]), (0, Go), (0, Go),
      (0, Go), (0, Go), (0, Go), (0, Go), (0, Go)]"

fun quiet :: "frame \<Rightarrow> bool" where
  "quiet (Run t) = (t \<noteq> 9)"
| "quiet (Schedule pc t tr) = (t \<noteq> 9 \<and> (pc = S_Entry \<or> pc = S_Return))"
| "quiet (Worker pc tr) = False"
| "quiet (Destructor pc tr) = False"
| "quiet _ = True"

definition blocked_inv :: "config \<Rightarrow> bool" where
  "blocked_inv cfg =
     (shutdown (pool cfg) \<and> \<not> events (pool cfg) (WorkerEvent 0) \<and> \<not> finished (pool cfg) 0
      \<and> (\<forall>t. t \<noteq> 9 \<longrightarrow> WorkerEvent 0 \<notin> set (conts (pool cfg) t))
      \<and> (\<exists>tr. threads cfg 1 = [Destructor (D_Join 0) tr])
      \<and> (\<exists>T added tr st. threads cfg 0 = WaitHandler H_Wait T added tr # st)
      \<and> (\<forall>tid. 2 \<le> tid \<longrightarrow> list_all quiet (threads cfg tid)))"

definition away_from :: "task \<Rightarrow> (nat \<times> choice) list \<Rightarrow> bool" where
  "away_from t sched = list_all (\<lambda>a. snd a \<noteq> CallInline t \<and> snd a \<noteq> CallSchedule t) sched"

text \<open>
  The traces of a call of \<open>schedule(t)\<close> by thread \<open>tid\<close>: the inline run after
  shutdown; the push followed by the unlocked \<open>waiters.empty()\<close> that finds no waiter;
  the same followed by a locked re-check that finds none either; and the wake-up of the
  waiter \<open>e\<close>, popped under the lock and signalled after the lock is released.
\<close>

definition push_action :: "nat \<Rightarrow> nat \<Rightarrow> task \<Rightarrow> action" where
  "push_action N tid t = (case thread_id N tid of Some i \<Rightarrow> APushLocal i t | None \<Rightarrow> APushPublic t)"

definition inline_trace :: "task \<Rightarrow> action list" where
  "inline_trace t = [AShutdown True, ARun t]"

definition no_waiter_trace :: "nat \<Rightarrow> nat \<Rightarrow> task \<Rightarrow> action list" where
  "no_waiter_trace N tid t = [AShutdown False, push_action N tid t, AEmpty True]"

definition recheck_trace :: "nat \<Rightarrow> nat \<Rightarrow> task \<Rightarrow> action list" where
  "recheck_trace N tid t =
     [AShutdown False, push_action N tid t, AEmpty False, ALock, AEmpty True, AUnlock]"

definition wake_trace :: "nat \<Rightarrow> nat \<Rightarrow> task \<Rightarrow> event \<Rightarrow> action list" where
  "wake_trace N tid t e =
     [AShutdown False, push_action N tid t, AEmpty False, ALock, AEmpty False, APopBack e,
      AUnlock, ASignal e]"

fun sched_inv :: "nat \<Rightarrow> nat \<Rightarrow> frame \<Rightarrow> bool" where
  "sched_inv N tid (Schedule pc t tr) =
     (case pc of
        S_Entry \<Rightarrow> tr = []
      | S_Push \<Rightarrow> tr = [AShutdown False]
      | S_Empty1 \<Rightarrow> tr = [AShutdown False, push_action N tid t]
      | S_Lock \<Rightarrow> tr = [AShutdown False, push_action N tid t, AEmpty False]
      | S_Empty2 \<Rightarrow> tr = [AShutdown False, push_action N tid t, AEmpty False, ALock]
      | S_Pop \<Rightarrow> tr = [AShutdown False, push_action N tid t, AEmpty False, ALock, AEmpty False]
      | S_Unlock None \<Rightarrow>
          tr = [AShutdown False, push_action N tid t, AEmpty False, ALock, AEmpty True]
      | S_Unlock (Some e) \<Rightarrow>
          tr = [AShutdown False, push_action N tid t, AEmpty False, ALock, AEmpty False, APopBack e]
      | S_Signal e \<Rightarrow>
          tr = [AShutdown False, push_action N tid t, AEmpty False, ALock, AEmpty False, APopBack e,
                AUnlock]
      | S_Return \<Rightarrow>
          tr = inline_trace t \<or> tr = no_waiter_trace N tid t \<or> tr = recheck_trace N tid t
          \<or> (\<exists>e. tr = wake_trace N tid t e))"
| "sched_inv N tid _ = True"



text \<open>
  Runs with one worker. In \<open>park_and_submit\<close> the worker parks and thread 1 enters
  \<open>schedule(7)\<close>. In \<open>late_submit\<close> thread 1 starts the destructor, which
  sets \<open>shutdown\<close>, and thread 2 enters \<open>schedule(7)\<close>. In \<open>worker_submit\<close> the worker
  runs task 5, which enters \<open>schedule(6)\<close> and reads \<open>shutdown\<close>.
\<close>

definition park_and_submit :: "(nat \<times> choice) list" where
  "park_and_submit =
     [(0, Go), (0, Go), (0, Go), (0, Perm [0]), (0, Go), (0, Go), (0, Go), (0, Go), (0, Go),
      (1, CallSchedule 7)]"


definition late_submit :: "(nat \<times> choice) list" where
  "late_submit = [(1, Exit), (1, Go), (2, CallSchedule 7)]"

text \<open>
  The waiter list and the two wait loops: the main loop of a worker never calls
  \<open>remove_waiter\<close>; in \<open>threadpool_wait_handler\<close> of worker \<open>i\<close> whatever follows a
  \<open>wait()\<close> is \<open>remove_waiter\<close> of the worker's own event.
\<close>

fun is_remove :: "action \<Rightarrow> bool" where
  "is_remove (ARemove e) = True"
| "is_remove _ = False"

fun remove_inv :: "nat \<Rightarrow> frame \<Rightarrow> bool" where
  "remove_inv i (Worker pc tr) = list_all (\<lambda>a. \<not> is_remove a) tr"
| "remove_inv i (WaitHandler pc T added tr) =
     (followed AWait (ARemove (WorkerEvent i)) tr \<and> (ends_with [AWait] tr \<longrightarrow> pc = H_Remove))"
| "remove_inv i _ = True"

text \<open>
  Runs for the waiter list, with one worker. \<open>park_and_pop\<close>: the worker is parked
  and thread 1 is at \<open>waiters.back()\<close> inside \<open>schedule(7)\<close>. \<open>second_submit\<close>: thread
  2 then enters \<open>schedule(8)\<close> and comes to the lock.
\<close>

definition park_and_pop :: "(nat \<times> choice) list" where
  "park_and_pop = park_and_submit @ [(1, Go), (1, Go), (1, Go), (1, Go), (1, Go)]"


text \<open>
  A run with one worker. Thread 1 submits task 5; the worker runs it, and the task waits
  for task 9: the nested wait attaches its continuation, registers and waits. Thread 2
  submits task 6, takes the entry of the worker off the list and releases the lock, but
  does not signal yet. Thread 1 completes task 9, which wakes the worker; the nested
  wait returns, task 5 ends, and the worker runs task 6 and finds no other. Thread 1
  submits task 8 and, the list being empty, wakes nobody. The worker parks in its main
  loop. Thread 2 now signals, the worker wakes, pops task 8 and runs it. This is
  \<open>stale_entry\<close>. In \<open>nested_park\<close> task 8 waits for task 10: the nested wait registers
  and waits, and thread 1 completes task 10, which wakes it.
\<close>

definition stale_entry :: "(nat \<times> choice) list" where
  "stale_entry =
     [(1, CallSchedule 5), (1, Go), (1, Go), (1, Go), (1, Go),
      (0, Go), (0, Go), (0, CallWait 9),
      (0, Go), (0, Go), (0, Go), (0, Perm [0]), (0, Go), (0, Go),
      (0, Go), (0, Go), (0, Go), (0, Go), (0, Go),
      (2, CallSchedule 6), (2, Go), (2, Go), (2, Go), (2, Go), (2, Go), (2, Go), (2, Go),
      (1, CallInline 9), (1, Return),
      (0, Go), (0, Go), (0, Go), (0, Go), (0, Return),
      (0, Go), (0, Go), (0, Return), (0, Go), (0, Go), (0, Go),
      (1, CallSchedule 8), (1, Go), (1, Go), (1, Go), (1, Go),
      (0, Perm [0]), (0, Go), (0, Go), (0, Go), (0, Go), (0, Go),
      (2, Go), (2, Go),
      (0, Go), (0, Go)]"

definition nested_park :: "(nat \<times> choice) list" where
  "nested_park =
     [(0, CallWait 10),
      (0, Go), (0, Go), (0, Go), (0, Perm [0]), (0, Go), (0, Go),
      (0, Go), (0, Go), (0, Go), (0, Go), (0, Go),
      (1, CallInline 10), (1, Return),
      (0, Go)]"

text \<open>
  A call of \<open>generic_wait_handler(T)\<close>: its trace, program point by program point.
  \<open>others tid sched\<close>: every step of \<open>sched\<close> is a step of a thread other than \<open>tid\<close>.
\<close>

fun generic_inv :: "nat \<Rightarrow> frame \<Rightarrow> bool" where
  "generic_inv tid (Generic pc T tr) =
     (case pc of
        G_Create \<Rightarrow> tr = []
      | G_Attach \<Rightarrow> tr = [ACreate]
      | G_Wait \<Rightarrow> tr = [ACreate, AOnFinish T]
      | G_Return \<Rightarrow> tr = [ACreate, AOnFinish T, AWait])"
| "generic_inv tid _ = True"

definition others :: "nat \<Rightarrow> (nat \<times> choice) list \<Rightarrow> bool" where
  "others tid sched = list_all (\<lambda>a. fst a \<noteq> tid) sched"

text \<open>
  \<open>own_handler tid sched\<close>: in the run \<open>sched\<close> the thread \<open>tid\<close> never calls
  \<open>set_thread_wait_handler\<close>.
\<close>

fun is_set_handler :: "choice \<Rightarrow> bool" where
  "is_set_handler (CallSetHandler h) = True"
| "is_set_handler _ = False"

definition own_handler :: "nat \<Rightarrow> (nat \<times> choice) list \<Rightarrow> bool" where
  "own_handler tid sched = list_all (\<lambda>a. fst a = tid \<longrightarrow> \<not> is_set_handler (snd a)) sched"

text \<open>
  Runs with one worker. \<open>completed\<close>: thread 2 submits task 5 and worker 0 completes it.
  \<open>wait_completed\<close>: thread 2 then waits for task 5; the worker goes on to park while
  the handler of thread 2 runs. \<open>wait_pending\<close>: thread 2 waits for task 5 while the
  worker is still running it, and has created its event. \<open>custom_wait\<close>: thread 2 installs a wait handler of its
  own and waits for task 5.
\<close>

definition completed :: "(nat \<times> choice) list" where
  "completed =
     [(2, CallSchedule 5), (2, Go), (2, Go), (2, Go), (2, Go),
      (0, Go), (0, Go), (0, Return)]"

definition wait_completed :: "(nat \<times> choice) list" where
  "wait_completed = completed @ [(2, CallWait 5)]"

definition wait_pending :: "(nat \<times> choice) list" where
  "wait_pending =
     [(2, CallSchedule 5), (2, Go), (2, Go), (2, Go), (2, Go),
      (0, Go), (0, Go),
      (2, CallWait 5), (2, Go)]"

definition custom_wait :: "(nat \<times> choice) list" where
  "custom_wait = [(2, CallSetHandler HUser), (2, CallWait 5)]"

text \<open>
  A run with one worker in which a submission wakes nobody: the worker has looked at
  the queues and found them empty; thread 1 then runs \<open>schedule(7)\<close> to its end, finding
  no waiter; the worker then resets its event, registers and waits.
\<close>

definition submit_before_park :: "(nat \<times> choice) list" where
  "submit_before_park =
     [(0, Go), (0, Go), (0, Go), (0, Perm [0]), (0, Go), (0, Go),
      (1, CallSchedule 7), (1, Go), (1, Go), (1, Go), (1, Go),
      (0, Go), (0, Go), (0, Go)]"

section \<open>The number of worker threads: proofs\<close>

lemma digit_not_space: "isdigit c \<Longrightarrow> \<not> isspace c"
  by (auto simp: isdigit_def isspace_def)

lemma digit_not_sign: "isdigit c \<Longrightarrow> c \<noteq> CHR ''-'' \<and> c \<noteq> CHR ''+''"
  by (auto simp: isdigit_def)

lemma sign_not_space: "\<not> isspace CHR ''-''" "\<not> isspace CHR ''+''"
  by (simp_all add: isspace_def)

lemma dropWhile_spaces:
  "list_all isspace ws \<Longrightarrow> xs \<noteq> [] \<Longrightarrow> \<not> isspace (hd xs) \<Longrightarrow> dropWhile isspace (ws @ xs) = xs"
  by (induction ws) (auto simp: neq_Nil_conv)

lemma takeWhile_digits:
  "list_all isdigit ds \<Longrightarrow> rest = [] \<or> \<not> isdigit (hd rest) \<Longrightarrow> takeWhile isdigit (ds @ rest) = ds"
  by (induction ds) (cases rest; auto)+

lemma decimal_nonneg_aux:
  "list_all isdigit ds \<Longrightarrow> 0 \<le> a \<Longrightarrow> 0 \<le> foldl (\<lambda>a c. 10 * a + digit_value c) a ds"
  by (induction ds arbitrary: a) (auto simp: isdigit_def digit_value_def)

lemma decimal_nonneg: "list_all isdigit ds \<Longrightarrow> 0 \<le> decimal ds"
  by (simp add: decimal_def decimal_nonneg_aux)

text \<open>
  What \<open>std::stoi\<close> accepts: white space, then an optional sign, then digits, then
  anything that does not start with a digit.
\<close>

lemma stoi_grammar:
  assumes ws: "list_all isspace ws" and sg: "sign = [] \<or> sign = ''+'' \<or> sign = ''-''"
    and ne: "ds \<noteq> []" and ds: "list_all isdigit ds" and rest: "rest = [] \<or> \<not> isdigit (hd rest)"
  shows "stoi (ws @ sign @ ds @ rest) =
           (let v = (if sign = ''-'' then - decimal ds else decimal ds)
            in if v < INT_MIN \<or> INT_MAX < v then Inl out_of_range else Inr v)"
proof -
  from ne ds have d0: "isdigit (hd ds)" by (cases ds) auto
  have tk: "takeWhile isdigit (ds @ rest) = ds" using ds rest by (rule takeWhile_digits)
  from sg show ?thesis
  proof (elim disjE)
    assume s: "sign = []"
    have "dropWhile isspace (ws @ ds @ rest) = ds @ rest"
      using ws ne d0 by (intro dropWhile_spaces) (auto dest: digit_not_space)
    then show ?thesis using s ne d0 tk digit_not_sign[OF d0]
      by (simp add: stoi_def Let_def)
  next
    assume s: "sign = ''+''"
    have "dropWhile isspace (ws @ ''+'' @ ds @ rest) = ''+'' @ ds @ rest"
      using ws by (intro dropWhile_spaces) (auto simp: sign_not_space)
    then show ?thesis using s ne tk
      by (simp add: stoi_def Let_def)
  next
    assume s: "sign = ''-''"
    have "dropWhile isspace (ws @ ''-'' @ ds @ rest) = ''-'' @ ds @ rest"
      using ws by (intro dropWhile_spaces) (auto simp: sign_not_space)
    then show ?thesis using s ne tk
      by (simp add: stoi_def Let_def)
  qed
qed

text \<open>On a run of digits the code and the specification's reading agree.\<close>

lemma num_threads_agree_on_digits:
  assumes "spec_decimal_integer str"
  shows "num_threads_init (Some str) hw = spec_num_threads (Some str) hw"
proof -
  from assms have ne: "str \<noteq> []" and ds: "list_all isdigit str"
    by (auto simp: spec_decimal_integer_def)
  have "stoi ([] @ [] @ str @ []) = (let v = (if [] = ''-'' then - decimal str else decimal str)
            in if v < INT_MIN \<or> INT_MAX < v then Inl out_of_range else Inr v)"
    using ne ds by (intro stoi_grammar) auto
  moreover have "0 \<le> decimal str" using ds by (rule decimal_nonneg)
  ultimately show ?thesis using assms
    by (auto simp: num_threads_init_def spec_num_threads_def spec_malformed_def Let_def INT_MIN_def)
qed

text \<open>
  Claim C6, as stated: the worker count comes from \<open>LIBASYNC_NUM_THREADS\<close> when the
  variable holds a valid positive decimal integer; an absent or malformed variable is
  ignored and the hardware concurrency is used; the count is at least one.
  The claim fails on a value such as \<open>12abc\<close>: it is malformed, and the constructor
  starts 12 workers where the hardware concurrency is 4.
\<close>

theorem c6_counterexample:
  "spec_malformed ''12abc''
   \<and> spec_num_threads (Some ''12abc'') 4 = 4
   \<and> num_threads_init None 4 = 4
   \<and> num_threads_init (Some ''12abc'') 4 = 12"
  by (simp add: num_threads_init_def spec_num_threads_def spec_malformed_def
      spec_decimal_integer_def stoi_def isspace_def isdigit_def decimal_def digit_value_def
      INT_MIN_def INT_MAX_def)

text \<open>
  Claim C6, amended: the worker count is \<open>max v 1\<close> when the variable is set and
  \<open>std::stoi\<close> converts it to \<open>v\<close>, which it does whenever the text is white space, an
  optional sign and a run of digits whose value fits an \<open>int\<close>, whatever follows the
  digits; it is \<open>max h 1\<close> for the hardware concurrency \<open>h\<close> when the variable is absent
  or \<open>std::stoi\<close> throws; it is at least one in every case.
\<close>

theorem c6_num_threads:
  assumes ws: "list_all isspace ws" and sg: "sign = [] \<or> sign = ''+'' \<or> sign = ''-''"
    and ne: "ds \<noteq> []" and ds: "list_all isdigit ds" and rest: "rest = [] \<or> \<not> isdigit (hd rest)"
    and v: "v = (if sign = ''-'' then - decimal ds else decimal ds)"
  shows "num_threads_init None hw = max (sint hw) 1
       \<and> num_threads_init (Some (ws @ sign @ ds @ rest)) hw =
           (if INT_MIN \<le> v \<and> v \<le> INT_MAX then max v 1 else max (sint hw) 1)
       \<and> (stoi str = Inl e \<longrightarrow> num_threads_init (Some str) hw = max (sint hw) 1)
       \<and> 1 \<le> num_threads_init env hw"
  using stoi_grammar[OF ws sg ne ds rest] v
  by (auto simp: num_threads_init_def Let_def)

theorem c6_num_threads_witness:
  "num_threads_init None 4 = 4
   \<and> num_threads_init (Some '' +12abc'') 4 = 12
   \<and> stoi ''abc'' = Inl invalid_argument \<and> num_threads_init (Some ''abc'') 4 = 4
   \<and> 1 \<le> num_threads_init (Some ''-3'') 4"
proof -
  have d: "decimal ''12'' = 12"
    by (simp add: decimal_def digit_value_def)
  have f: "stoi ''abc'' = Inl invalid_argument"
    by (simp add: stoi_def isspace_def isdigit_def)
  from c6_num_threads[of "'' ''" "''+''" "''12''" "''abc''" 12 4 "''abc''" invalid_argument "Some ''-3''"] d f
  show ?thesis
    by (simp add: isspace_def isdigit_def INT_MIN_def INT_MAX_def)
qed

section \<open>The per-task thread scheduler: proof\<close>

text \<open>
  Claim C5: \<open>schedule(t)\<close> of the per-task thread scheduler spawns a thread that runs
  \<open>t\<close> and returns to the caller. In the code the temporary \<open>std::thread\<close> is destroyed
  while it is joinable, so every call ends in \<open>std::terminate\<close>: the call does not
  return.
\<close>

theorem c5_thread_scheduler_terminates:
  "thread_scheduler_schedule t p = Inl std_terminate"
  by (simp add: thread_scheduler_schedule_def thread_ctor_def thread_dtor_def)

section \<open>Traces: proofs\<close>

lemma ends_with_iff: "ends_with ys tr \<longleftrightarrow> (\<exists>pre. tr = pre @ ys)"
proof
  assume "ends_with ys tr"
  then have "take (length ys) (rev tr) = rev ys" by (simp add: ends_with_def)
  then have "rev tr = rev ys @ drop (length ys) (rev tr)"
    by (metis append_take_drop_id)
  then have "tr = rev (drop (length ys) (rev tr)) @ ys"
    by (metis rev_append rev_rev_ident)
  then show "\<exists>pre. tr = pre @ ys" ..
next
  assume "\<exists>pre. tr = pre @ ys"
  then show "ends_with ys tr" by (auto simp: ends_with_def)
qed

lemma preceded_rev_iff:
  "preceded_rev x ys tr \<longleftrightarrow> (\<forall>pre post. tr = pre @ x # post \<longrightarrow> take (length ys) post = ys)"
proof (induction tr)
  case Nil
  then show ?case by simp
next
  case (Cons a tr)
  show ?case
  proof
    assume h: "preceded_rev x ys (a # tr)"
    show "\<forall>pre post. a # tr = pre @ x # post \<longrightarrow> take (length ys) post = ys"
    proof (intro allI impI)
      fix pre post assume e: "a # tr = pre @ x # post"
      show "take (length ys) post = ys"
      proof (cases pre)
        case Nil
        with e h show ?thesis by auto
      next
        case (Cons b pre')
        with e have "tr = pre' @ x # post" by simp
        with h Cons.IH show ?thesis by auto
      qed
    qed
  next
    assume h: "\<forall>pre post. a # tr = pre @ x # post \<longrightarrow> take (length ys) post = ys"
    have 1: "a \<noteq> x \<or> take (length ys) tr = ys"
      using h[rule_format, of "[]" tr] by auto
    have 2: "preceded_rev x ys tr"
      unfolding Cons.IH
    proof (intro allI impI)
      fix pre post assume "tr = pre @ x # post"
      then have "a # tr = (a # pre) @ x # post" by simp
      from h[rule_format, OF this] show "take (length ys) post = ys" .
    qed
    from 1 2 show "preceded_rev x ys (a # tr)" by simp
  qed
qed

lemma preceded_iff:
  "preceded x ys tr \<longleftrightarrow> (\<forall>pre post. tr = pre @ x # post \<longrightarrow> (\<exists>pre'. pre = pre' @ ys))"
proof -
  have "preceded x ys tr \<longleftrightarrow>
      (\<forall>pre post. rev tr = pre @ x # post \<longrightarrow> take (length (rev ys)) post = rev ys)"
    by (simp add: preceded_def preceded_rev_iff)
  also have "\<dots> \<longleftrightarrow> (\<forall>pre post. tr = pre @ x # post \<longrightarrow> ends_with ys pre)"
  proof
    assume h: "\<forall>pre post. rev tr = pre @ x # post \<longrightarrow> take (length (rev ys)) post = rev ys"
    show "\<forall>pre post. tr = pre @ x # post \<longrightarrow> ends_with ys pre"
    proof (intro allI impI)
      fix pre post assume "tr = pre @ x # post"
      then have "rev tr = rev post @ x # rev pre" by simp
      from h[rule_format, OF this] have "take (length (rev ys)) (rev pre) = rev ys" .
      then show "ends_with ys pre" by (simp add: ends_with_def)
    qed
  next
    assume h: "\<forall>pre post. tr = pre @ x # post \<longrightarrow> ends_with ys pre"
    show "\<forall>pre post. rev tr = pre @ x # post \<longrightarrow> take (length (rev ys)) post = rev ys"
    proof (intro allI impI)
      fix pre post assume "rev tr = pre @ x # post"
      then have "rev (rev tr) = rev (pre @ x # post)" by simp
      then have "tr = rev post @ x # rev pre" by simp
      from h[rule_format, OF this] have "ends_with ys (rev post)" .
      then show "take (length (rev ys)) post = rev ys" by (simp add: ends_with_def)
    qed
  qed
  finally show ?thesis by (simp add: ends_with_iff)
qed

lemma followed_rev_iff:
  "followed_rev x y tr \<longleftrightarrow> (\<forall>pre a post. tr = pre @ a # x # post \<longrightarrow> a = y)"
proof (induction x y tr rule: followed_rev.induct)
  case (1 x y a b tr)
  show ?case
  proof
    assume h: "followed_rev x y (a # b # tr)"
    show "\<forall>pre a' post. a # b # tr = pre @ a' # x # post \<longrightarrow> a' = y"
    proof (intro allI impI)
      fix pre a' post assume e: "a # b # tr = pre @ a' # x # post"
      show "a' = y"
      proof (cases pre)
        case Nil
        with e h show ?thesis by auto
      next
        case (Cons c pre')
        with e have e': "b # tr = pre' @ a' # x # post" by simp
        from h have "followed_rev x y (b # tr)" by simp
        then have "\<forall>pre a post. b # tr = pre @ a # x # post \<longrightarrow> a = y"
          by (simp only: 1)
        from this[rule_format, OF e'] show ?thesis .
      qed
    qed
  next
    assume h: "\<forall>pre a' post. a # b # tr = pre @ a' # x # post \<longrightarrow> a' = y"
    have 2: "b \<noteq> x \<or> a = y"
      using h[rule_format, of "[]" a tr] by auto
    have 3: "followed_rev x y (b # tr)"
      unfolding 1
    proof (intro allI impI)
      fix pre a' post assume "b # tr = pre @ a' # x # post"
      then have "a # b # tr = (a # pre) @ a' # x # post" by simp
      from h[rule_format, OF this] show "a' = y" .
    qed
    from 2 3 show "followed_rev x y (a # b # tr)" by simp
  qed
qed (auto simp: append_eq_Cons_conv)

lemma followed_iff:
  "followed x y tr \<longleftrightarrow> (\<forall>pre a post. tr = pre @ x # a # post \<longrightarrow> a = y)"
proof -
  have "followed x y tr \<longleftrightarrow> (\<forall>pre a post. rev tr = pre @ a # x # post \<longrightarrow> a = y)"
    by (simp add: followed_def followed_rev_iff)
  also have "\<dots> \<longleftrightarrow> (\<forall>pre a post. tr = pre @ x # a # post \<longrightarrow> a = y)"
  proof
    assume h: "\<forall>pre a post. rev tr = pre @ a # x # post \<longrightarrow> a = y"
    show "\<forall>pre a post. tr = pre @ x # a # post \<longrightarrow> a = y"
    proof (intro allI impI)
      fix pre a post assume "tr = pre @ x # a # post"
      then have "rev tr = rev post @ a # x # rev pre" by simp
      from h[rule_format, OF this] show "a = y" .
    qed
  next
    assume h: "\<forall>pre a post. tr = pre @ x # a # post \<longrightarrow> a = y"
    show "\<forall>pre a post. rev tr = pre @ a # x # post \<longrightarrow> a = y"
    proof (intro allI impI)
      fix pre a post assume "rev tr = pre @ a # x # post"
      then have "rev (rev tr) = rev (pre @ a # x # post)" by simp
      then have "tr = rev post @ x # a # rev pre" by simp
      from h[rule_format, OF this] show "a = y" .
    qed
  qed
  finally show ?thesis .
qed

lemma preceded_Nil [simp]: "preceded x ys []"
  by (simp add: preceded_def)

lemma preceded_snoc [simp]:
  "preceded x ys (tr @ [a]) \<longleftrightarrow> (a \<noteq> x \<or> ends_with ys tr) \<and> preceded x ys tr"
  by (simp add: preceded_def ends_with_def)

lemma preceded_snoc2 [simp]:
  "preceded x ys (tr @ [a, b]) \<longleftrightarrow>
     (b \<noteq> x \<or> ends_with ys (tr @ [a])) \<and> (a \<noteq> x \<or> ends_with ys tr) \<and> preceded x ys tr"
  using preceded_snoc[of x ys "tr @ [a]" b] by auto

lemma followed_Nil [simp]: "followed x y []"
  by (simp add: followed_def)

lemma followed_snoc [simp]:
  "followed x y (tr @ [a]) \<longleftrightarrow> (\<not> ends_with [x] tr \<or> a = y) \<and> followed x y tr"
  by (cases "rev tr") (auto simp: followed_def ends_with_def)

lemma followed_snoc2 [simp]:
  "followed x y (tr @ [a, b]) \<longleftrightarrow>
     (a \<noteq> x \<or> b = y) \<and> (\<not> ends_with [x] tr \<or> a = y) \<and> followed x y tr"
  using followed_snoc[of x y "tr @ [a]" b] by (auto simp: ends_with_def)

lemma ends_with_Nil [simp]: "ends_with [] tr"
  by (simp add: ends_with_def)

lemma ends_with_empty [simp]: "ends_with (y # ys) [] = False"
  by (simp add: ends_with_def)

lemma ends_with_snoc:
  "ends_with (ys @ [b]) (tr @ [a]) \<longleftrightarrow> a = b \<and> ends_with ys tr"
  by (auto simp: ends_with_def)

lemma ends_with_snoc1 [simp]: "ends_with [b] (tr @ [a]) \<longleftrightarrow> a = b"
  using ends_with_snoc[of "[]" b tr a] by simp

lemma ends_with_snoc2 [simp]: "ends_with [c, b] (tr @ [a]) \<longleftrightarrow> a = b \<and> ends_with [c] tr"
  using ends_with_snoc[of "[c]" b tr a] by simp

lemma ends_with_snoc3 [simp]: "ends_with [d, c, b] (tr @ [a]) \<longleftrightarrow> a = b \<and> ends_with [d, c] tr"
  using ends_with_snoc[of "[d, c]" b tr a] by simp

lemma ends_with_snoc_two [simp]: "ends_with [b] (tr @ [a, a']) \<longleftrightarrow> a' = b"
  using ends_with_snoc1[of b "tr @ [a]" a'] by simp

lemma ends_with_snoc_two2 [simp]: "ends_with [c, b] (tr @ [a, a']) \<longleftrightarrow> a' = b \<and> a = c"
  using ends_with_snoc2[of c b "tr @ [a]" a'] by simp

lemma ends_with_snoc_two3 [simp]:
  "ends_with [d, c, b] (tr @ [a, a']) \<longleftrightarrow> a' = b \<and> a = c \<and> ends_with [d] tr"
  using ends_with_snoc3[of d c b "tr @ [a]" a'] by simp

section \<open>Invariants of the program\<close>

lemma run_steps_invariant:
  assumes "run_steps N as cfg = Some cfg'" and "I cfg"
    and "\<And>a c c'. I c \<Longrightarrow> step N a c = Some c' \<Longrightarrow> I c'"
  shows "I cfg'"
  using assms(1,2)
proof (induction as arbitrary: cfg)
  case Nil
  then show ?case by simp
next
  case (Cons a as)
  then show ?case by (auto split: option.splits dest: assms(3))
qed

lemma run_steps_append:
  "run_steps N (as @ bs) cfg = (case run_steps N as cfg of None \<Rightarrow> None | Some c \<Rightarrow> run_steps N bs c)"
  by (induction as arbitrary: cfg) (auto split: option.splits)

lemma stepE:
  assumes "step N (tid, c) cfg = Some cfg'"
  obtains f stack s' fs where "threads cfg tid = f # stack"
    and "frame_step N tid c (pool cfg) f = Some (s', fs)"
    and "cfg' = \<lparr>pool = s', threads = (threads cfg)(tid := fs @ stack)\<rparr>"
  using assms by (auto simp: step_def split: list.splits option.splits)

lemma frames_ok_step:
  assumes loc: "\<And>tid c s f s' fs. P tid f \<Longrightarrow> frame_step N tid c s f = Some (s', fs) \<Longrightarrow> list_all (P tid) fs"
    and ok: "frames_ok P cfg" and st: "step N a cfg = Some cfg'"
  shows "frames_ok P cfg'"
proof -
  obtain tid c where a: "a = (tid, c)" by (cases a)
  from st[unfolded a] obtain f stack s' fs where
    th: "threads cfg tid = f # stack" and fs: "frame_step N tid c (pool cfg) f = Some (s', fs)"
    and cfg': "cfg' = \<lparr>pool = s', threads = (threads cfg)(tid := fs @ stack)\<rparr>"
    by (rule stepE)
  from ok th have "P tid f" "list_all (P tid) stack"
    by (auto simp: frames_ok_def dest: spec[of _ tid])
  with loc[OF _ fs] have "list_all (P tid) (fs @ stack)" by simp
  with ok cfg' show ?thesis by (auto simp: frames_ok_def)
qed

lemma frames_ok_exec:
  assumes loc: "\<And>tid c s f s' fs. P tid f \<Longrightarrow> frame_step N tid c s f = Some (s', fs) \<Longrightarrow> list_all (P tid) fs"
    and i: "\<And>tid. P tid (Worker W_LocalPop [])" "\<And>tid. P tid User"
    and ex: "exec N sched = Some cfg" and f: "f \<in> set (threads cfg tid)"
  shows "P tid f"
proof -
  have "frames_ok P (init N)" using i by (simp add: frames_ok_def init_def)
  with ex have "frames_ok P cfg"
    unfolding exec_def using frames_ok_step[of P N, OF loc] by (rule run_steps_invariant)
  with f show ?thesis by (auto simp: frames_ok_def list_all_iff)
qed

lemma steal_task_actions:
  "steal_task me vs s = (as, s', r) \<Longrightarrow> as = [] \<or> (\<exists>i t. as = [ASteal i t])"
  by (cases vs) (auto split: if_splits prod.splits option.splits)

lemmas step_splits = prod.splits option.splits if_splits sum.splits

lemma park_inv_step:
  "park_inv tid f \<Longrightarrow> frame_step N tid c s f = Some (s', fs) \<Longrightarrow> list_all (park_inv tid) fs"
proof (cases f)
  case (Worker pc tr)
  assume "park_inv tid f" "frame_step N tid c s f = Some (s', fs)"
  with Worker show ?thesis
    by (cases pc) (auto simp: frame_step_def split: step_splits choice.splits dest!: steal_task_actions)
next
  case (WaitHandler pc T added tr)
  assume "frame_step N tid c s f = Some (s', fs)"
  with WaitHandler show ?thesis
    by (cases pc) (auto simp: frame_step_def split: step_splits choice.splits)
next
  case (Schedule pc t tr)
  assume "frame_step N tid c s f = Some (s', fs)"
  with Schedule show ?thesis
    by (cases pc) (auto simp: frame_step_def split: step_splits)
next
  case (Generic pc T tr)
  assume "frame_step N tid c s f = Some (s', fs)"
  with Generic show ?thesis
    by (cases pc) (auto simp: frame_step_def split: step_splits)
next
  case (Destructor pc tr)
  assume "frame_step N tid c s f = Some (s', fs)"
  with Destructor show ?thesis
    by (cases pc) (auto simp: frame_step_def split: step_splits)
next
  case (Run t)
  assume "frame_step N tid c s f = Some (s', fs)"
  with Run show ?thesis
    by (cases c) (auto simp: frame_step_def wait_for_task_def inline_schedule_def split: wait_handler.splits)
next
  case User
  assume "frame_step N tid c s f = Some (s', fs)"
  with User show ?thesis
    by (cases c) (auto simp: frame_step_def wait_for_task_def inline_schedule_def split: if_splits wait_handler.splits)
next
  case (Custom T)
  assume "frame_step N tid c s f = Some (s', fs)"
  with Custom show ?thesis
    by (cases c) (auto simp: frame_step_def wait_for_task_def inline_schedule_def split: if_splits wait_handler.splits)
qed

section \<open>The main loop of a worker\<close>

lemmas eval_defs = exec_def init_def init_pool_def step_def frame_step_def wsq_pop_def wsq_push_def
  wsq_steal_def fifo_pop_def fifo_push_def valid_shuffle_def event_reset_def event_signal_def
  event_wait_def register_waiter_def remove_waiter_def spin_lock_def spin_unlock_def thread_id_def
  on_finish_def task_finish_def wait_for_task_def set_thread_wait_handler_def thread_of_def

text \<open>
  Claim C1, as stated: in an iteration of the main loop that finds no task the worker
  performs \<open>reset()\<close>, a sequentially consistent fence, a re-check of the queues,
  \<open>register_waiter\<close>, a re-check of \<open>shutdown\<close> and then \<open>wait()\<close>. In the run
  \<open>park_and_wake\<close> the worker reaches \<open>wait()\<close>, and returns from it, with neither a
  fence nor a look at a queue after \<open>reset()\<close>.
\<close>

theorem c1_counterexample:
  "thread_of (exec 1 park_and_wake) 0 =
     [Worker W_PublicPop [ALocalPop None, APublicPop None, AShutdown False, AReset,
        ARegister (WorkerEvent 0), AShutdown False, AWait]]"
  by (simp add: park_and_wake_def eval_defs)

text \<open>
  Claim C1, amended: in the main loop every \<open>wait()\<close> comes right after, in this order,
  \<open>reset()\<close>, \<open>register_waiter(event)\<close> and a read of \<open>shutdown\<close> that found it
  unset; the main loop has no fence, and no queue is read between \<open>reset()\<close> and
  \<open>wait()\<close>. Conversely, after \<open>reset()\<close> the worker is at \<open>register_waiter\<close>, after
  that at the read of \<open>shutdown\<close>, and after a read that found it unset at \<open>wait()\<close>.
\<close>

theorem c1_main_loop_park:
  assumes "exec N sched = Some cfg" and "Worker pc tr \<in> set (threads cfg i)"
  shows "AFence \<notin> set tr
       \<and> (tr = pre @ AWait # post \<longrightarrow>
            (\<exists>pre'. pre = pre' @ [AReset, ARegister (WorkerEvent i), AShutdown False]))
       \<and> (tr = pre1 @ [AReset] \<longrightarrow> pc = W_Register)
       \<and> (tr = pre2 @ [AReset, ARegister (WorkerEvent i)] \<longrightarrow> pc = W_Shutdown2)
       \<and> (tr = pre3 @ [AReset, ARegister (WorkerEvent i), AShutdown False] \<longrightarrow> pc = W_Wait)"
proof -
  have inv: "park_inv i (Worker pc tr)"
    using park_inv_step _ _ assms by (rule frames_ok_exec) simp_all
  then have "AFence \<notin> set tr"
    and "preceded AWait [AReset, ARegister (WorkerEvent i), AShutdown False] tr"
    and "ends_with [AReset] tr \<longrightarrow> pc = W_Register"
    and "ends_with [AReset, ARegister (WorkerEvent i)] tr \<longrightarrow> pc = W_Shutdown2"
    and "ends_with [AReset, ARegister (WorkerEvent i), AShutdown False] tr \<longrightarrow> pc = W_Wait"
    by simp_all
  then show ?thesis unfolding preceded_iff ends_with_iff by blast
qed

theorem c1_main_loop_park_witness:
  "Worker W_PublicPop ([ALocalPop None, APublicPop None, AShutdown False] @
       [AReset, ARegister (WorkerEvent 0), AShutdown False] @ AWait # [])
     \<in> set (thread_of (exec 1 park_and_wake) 0)
   \<and> thread_of (exec 1 park) 0 =
       [Worker W_Register ([ALocalPop None, APublicPop None, AShutdown False] @ [AReset])]
   \<and> thread_of (exec 1 (park @ [(0, Go)])) 0 =
       [Worker W_Shutdown2 ([ALocalPop None, APublicPop None, AShutdown False]
          @ [AReset, ARegister (WorkerEvent 0)])]
   \<and> thread_of (exec 1 (park @ [(0, Go), (0, Go)])) 0 =
       [Worker W_Wait ([ALocalPop None, APublicPop None, AShutdown False]
          @ [AReset, ARegister (WorkerEvent 0), AShutdown False])]
   \<and> AFence \<notin> set ([ALocalPop None, APublicPop None, AShutdown False] @
       [AReset, ARegister (WorkerEvent 0), AShutdown False] @ AWait # [])"
proof -
  let ?p = "[ALocalPop None, APublicPop None, AShutdown False]"
  let ?e = "WorkerEvent 0"
  have e: "exec 1 park_and_wake \<noteq> None"
    by (simp add: park_and_wake_def eval_defs)
  then obtain cw where cw: "exec 1 park_and_wake = Some cw" by auto
  have tw: "thread_of (exec 1 park_and_wake) 0 =
      [Worker W_PublicPop (?p @ [AReset, ARegister ?e, AShutdown False] @ AWait # [])]"
    by (simp add: park_and_wake_def eval_defs)
  have e1: "exec 1 park \<noteq> None" "exec 1 (park @ [(0, Go)]) \<noteq> None"
    "exec 1 (park @ [(0, Go), (0, Go)]) \<noteq> None"
    by (simp_all add: park_def eval_defs)
  then obtain c1 c2 c3 where c: "exec 1 park = Some c1" "exec 1 (park @ [(0, Go)]) = Some c2"
    "exec 1 (park @ [(0, Go), (0, Go)]) = Some c3" by auto
  obtain pc1 tr1 where t1: "thread_of (exec 1 park) 0 = [Worker pc1 tr1]"
    and tr1: "tr1 = ?p @ [AReset]"
    by (simp add: park_def eval_defs)
  obtain pc2 tr2 where t2: "thread_of (exec 1 (park @ [(0, Go)])) 0 = [Worker pc2 tr2]"
    and tr2: "tr2 = ?p @ [AReset, ARegister ?e]"
    by (simp add: park_def eval_defs)
  obtain pc3 tr3 where t3: "thread_of (exec 1 (park @ [(0, Go), (0, Go)])) 0 = [Worker pc3 tr3]"
    and tr3: "tr3 = ?p @ [AReset, ARegister ?e, AShutdown False]"
    by (simp add: park_def eval_defs)
  from tw cw have mw: "Worker W_PublicPop (?p @ [AReset, ARegister ?e, AShutdown False] @ AWait # [])
      \<in> set (threads cw 0)" by (simp add: thread_of_def)
  from t1 c have m1: "Worker pc1 tr1 \<in> set (threads c1 0)" by (simp add: thread_of_def)
  from t2 c have m2: "Worker pc2 tr2 \<in> set (threads c2 0)" by (simp add: thread_of_def)
  from t3 c have m3: "Worker pc3 tr3 \<in> set (threads c3 0)" by (simp add: thread_of_def)
  note t = c1_main_loop_park
  from t[OF cw mw, THEN conjunct1]
  have r0: "AFence \<notin> set (?p @ [AReset, ARegister ?e, AShutdown False] @ AWait # [])" .
  from t[OF c(1) m1, THEN conjunct2, THEN conjunct2, THEN conjunct1, rule_format, OF tr1]
  have r1: "pc1 = W_Register" .
  from t[OF c(2) m2, THEN conjunct2, THEN conjunct2, THEN conjunct2, THEN conjunct1, rule_format,
      OF tr2]
  have r2: "pc2 = W_Shutdown2" .
  from t[OF c(3) m3, THEN conjunct2, THEN conjunct2, THEN conjunct2, THEN conjunct2, rule_format,
      OF tr3]
  have r3: "pc3 = W_Wait" .
  from t[OF cw mw, THEN conjunct2, THEN conjunct1, rule_format,
      of "?p @ [AReset, ARegister ?e, AShutdown False]" "[]"]
  have r4: "\<exists>pre'. ?p @ [AReset, ARegister ?e, AShutdown False]
      = pre' @ [AReset, ARegister ?e, AShutdown False]" by simp
  from r0 r1 r2 r3 tw t1 t2 t3 tr1 tr2 tr3 show ?thesis by simp
qed

section \<open>The nested wait handler\<close>

lemma cont_inv_step:
  "cont_inv tid f \<Longrightarrow> frame_step N tid c s f = Some (s', fs) \<Longrightarrow> list_all (cont_inv tid) fs"
proof (cases f)
  case (Worker pc tr)
  assume "frame_step N tid c s f = Some (s', fs)"
  with Worker show ?thesis
    by (cases pc) (auto simp: frame_step_def split: step_splits choice.splits)
next
  case (WaitHandler pc T added tr)
  assume "cont_inv tid f" "frame_step N tid c s f = Some (s', fs)"
  with WaitHandler show ?thesis
    by (cases pc) (auto simp: frame_step_def split: step_splits choice.splits dest!: steal_task_actions)
next
  case (Schedule pc t tr)
  assume "frame_step N tid c s f = Some (s', fs)"
  with Schedule show ?thesis
    by (cases pc) (auto simp: frame_step_def split: step_splits)
next
  case (Generic pc T tr)
  assume "frame_step N tid c s f = Some (s', fs)"
  with Generic show ?thesis
    by (cases pc) (auto simp: frame_step_def split: step_splits)
next
  case (Destructor pc tr)
  assume "frame_step N tid c s f = Some (s', fs)"
  with Destructor show ?thesis
    by (cases pc) (auto simp: frame_step_def split: step_splits)
next
  case (Run t)
  assume "frame_step N tid c s f = Some (s', fs)"
  with Run show ?thesis
    by (cases c) (auto simp: frame_step_def wait_for_task_def inline_schedule_def split: wait_handler.splits)
next
  case User
  assume "frame_step N tid c s f = Some (s', fs)"
  with User show ?thesis
    by (cases c) (auto simp: frame_step_def wait_for_task_def inline_schedule_def split: if_splits wait_handler.splits)
next
  case (Custom T)
  assume "frame_step N tid c s f = Some (s', fs)"
  with Custom show ?thesis
    by (cases c) (auto simp: frame_step_def wait_for_task_def inline_schedule_def split: if_splits wait_handler.splits)
qed

text \<open>
  Claim C2: in every call of \<open>threadpool_wait_handler(T)\<close> the continuation is attached
  to \<open>T\<close> at most once; it is attached only where the worker is about to park, right
  after \<open>reset()\<close>, the fence and a \<open>ready()\<close> that found \<open>T\<close> not complete; and a
  \<open>ready()\<close> that finds \<open>T\<close> complete is the last action of the call (the handler
  returns), so nothing is attached after it.
\<close>

theorem c2_continuation:
  assumes "exec N sched = Some cfg" and "WaitHandler pc T added tr \<in> set (threads cfg i)"
  shows "length (filter is_on_finish tr) \<le> 1
       \<and> (tr = pre @ AOnFinish T' # post \<longrightarrow>
            T' = T \<and> (\<exists>pre'. pre = pre' @ [AReset, AFence, AReady False]))
       \<and> (tr = pre2 @ AReady True # post2 \<longrightarrow> post2 = [] \<and> pc = H_Return)"
proof -
  have inv: "cont_inv i (WaitHandler pc T added tr)"
    using cont_inv_step _ _ assms by (rule frames_ok_exec) simp_all
  have 1: "length (filter is_on_finish tr) \<le> 1" using inv by (simp split: if_splits)
  have 2: "T' = T \<and> (\<exists>pre'. pre = pre' @ [AReset, AFence, AReady False])"
    if e: "tr = pre @ AOnFinish T' # post"
  proof -
    from inv e have "T' = T" by auto
    moreover from inv have "preceded (AOnFinish T) [AReset, AFence, AReady False] tr" by simp
    ultimately show ?thesis using e by (auto simp: preceded_iff)
  qed
  have 3: "post2 = [] \<and> pc = H_Return" if e: "tr = pre2 @ AReady True # post2"
  proof -
    from e have "AReady True \<in> set tr" by simp
    with inv have r: "pc = H_Return" and b: "AReady True \<notin> set (butlast tr)" by auto
    have "post2 = []"
    proof (rule ccontr)
      assume "post2 \<noteq> []"
      with e have "butlast tr = pre2 @ AReady True # butlast post2"
        by (simp add: butlast_append)
      with b show False by simp
    qed
    with r show ?thesis by simp
  qed
  from 1 2 3 show ?thesis by blast
qed

theorem c2_continuation_witness:
  "exec 2 nested_attach \<noteq> None
   \<and> WaitHandler H_Register 9 True
        [AReady False, ALocalPop None, APublicPop None, ASteal 1 None, AReset, AFence,
         AReady False, AOnFinish 9] \<in> set (thread_of (exec 2 nested_attach) 0)
   \<and> length (filter is_on_finish
        [AReady False, ALocalPop None, APublicPop None, ASteal 1 None, AReset, AFence,
         AReady False, AOnFinish 9]) \<le> 1
   \<and> (\<exists>pre'. [AReady False, ALocalPop None, APublicPop None, ASteal 1 None, AReset, AFence,
         AReady False] = pre' @ [AReset, AFence, AReady False])
   \<and> exec 2 nested_ready \<noteq> None
   \<and> WaitHandler H_Return 9 False
        [AReady False, ALocalPop None, APublicPop None, ASteal 1 None, AReset, AFence,
         AReady True] \<in> set (thread_of (exec 2 nested_ready) 0)"
proof -
  let ?ta = "[AReady False, ALocalPop None, APublicPop None, ASteal 1 None, AReset, AFence,
         AReady False, AOnFinish 9]"
  let ?tr = "[AReady False, ALocalPop None, APublicPop None, ASteal 1 None, AReset, AFence,
         AReady True]"
  have ea: "exec 2 nested_attach \<noteq> None"
    by (simp add: nested_attach_def eval_defs)
  have ta: "thread_of (exec 2 nested_attach) 0 =
      [WaitHandler H_Register 9 True ?ta, Run 5, Worker W_LocalPop [ALocalPop None, APublicPop (Some 5), ARun 5]]"
    by (simp add: nested_attach_def eval_defs)
  have er: "exec 2 nested_ready \<noteq> None"
    by (simp add: nested_ready_def eval_defs)
  have tr: "thread_of (exec 2 nested_ready) 0 =
      [WaitHandler H_Return 9 False ?tr, Run 5, Worker W_LocalPop [ALocalPop None, APublicPop (Some 5), ARun 5]]"
    by (simp add: nested_ready_def eval_defs)
  from ea obtain ca where ca: "exec 2 nested_attach = Some ca" by auto
  from er obtain cr where cr: "exec 2 nested_ready = Some cr" by auto
  have ma: "WaitHandler H_Register 9 True ?ta \<in> set (threads ca 0)"
    using ta ca by (simp add: thread_of_def)
  have mr: "WaitHandler H_Return 9 False ?tr \<in> set (threads cr 0)"
    using tr cr by (simp add: thread_of_def)
  from c2_continuation[OF ca ma, of "[AReady False, ALocalPop None, APublicPop None, ASteal 1 None, AReset, AFence,
         AReady False]" 9 "[]" "[]" "[]"]
    c2_continuation[OF cr mr, of "[]" 0 "[]" "[AReady False, ALocalPop None, APublicPop None, ASteal 1 None, AReset, AFence]" "[]"]
    ea er ta tr
  show ?thesis by simp
qed

section \<open>The lock and the waiter list\<close>

lemma steal_task_pool:
  "steal_task me vs s = (as, s', r) \<Longrightarrow>
     waiters_lock s' = waiters_lock s \<and> waiters s' = waiters s \<and> finished s' = finished s
     \<and> queues s' me = queues s me \<and> (\<forall>i. queues s i = [] \<longrightarrow> queues s' i = [])
     \<and> events s' = events s \<and> ready s' = ready s \<and> shutdown s' = shutdown s
     \<and> public_queue s' = public_queue s \<and> conts s' = conts s
     \<and> thread_wait_handler s' = thread_wait_handler s"
  by (cases vs) (auto simp: wsq_steal_def split: if_splits prod.splits option.splits list.splits)

lemmas prim_defs = inline_schedule_def wsq_pop_def wsq_push_def wsq_steal_def fifo_pop_def fifo_push_def
  event_reset_def event_signal_def event_wait_def register_waiter_def remove_waiter_def
  spin_lock_def spin_unlock_def thread_id_def on_finish_def task_finish_def wait_for_task_def
  set_thread_wait_handler_def

lemma lock_step:
  assumes "frame_step N tid c s f = Some (s', fs)"
    and "holds_lock f \<longleftrightarrow> waiters_lock s = Some tid"
  shows "list_all (\<lambda>f. \<not> holds_lock f) (tl fs)
       \<and> (fs \<noteq> [] \<longrightarrow> (holds_lock (hd fs) \<longleftrightarrow> waiters_lock s' = Some tid))
       \<and> (fs = [] \<longrightarrow> waiters_lock s' \<noteq> Some tid)
       \<and> (\<forall>j. j \<noteq> tid \<longrightarrow> (waiters_lock s' = Some j \<longleftrightarrow> waiters_lock s = Some j))"
proof (cases f)
  case (Worker pc tr)
  with assms show ?thesis
    by (cases pc) (auto simp: frame_step_def prim_defs split: step_splits choice.splits dest!: steal_task_pool)
next
  case (WaitHandler pc T added tr)
  with assms show ?thesis
    by (cases pc) (auto simp: frame_step_def prim_defs split: step_splits choice.splits dest!: steal_task_pool)
next
  case (Schedule pc t tr)
  with assms show ?thesis
    by (cases pc) (auto simp: frame_step_def prim_defs split: step_splits)
next
  case (Generic pc T tr)
  with assms show ?thesis
    by (cases pc) (auto simp: frame_step_def prim_defs split: step_splits)
next
  case (Destructor pc tr)
  with assms show ?thesis
    by (cases pc) (auto simp: frame_step_def prim_defs split: step_splits)
next
  case (Run t)
  with assms show ?thesis
    by (cases c) (auto simp: frame_step_def prim_defs split: if_splits wait_handler.splits)
next
  case User
  with assms show ?thesis
    by (cases c) (auto simp: frame_step_def prim_defs split: if_splits wait_handler.splits)
next
  case (Custom T)
  with assms show ?thesis
    by (cases c) (auto simp: frame_step_def prim_defs split: if_splits wait_handler.splits)
qed

lemma lock_inv_step:
  assumes inv: "lock_inv cfg" and st: "step N a cfg = Some cfg'"
  shows "lock_inv cfg'"
proof -
  obtain tid c where a: "a = (tid, c)" by (cases a)
  from st[unfolded a] obtain f stack s' fs where
    th: "threads cfg tid = f # stack" and fs: "frame_step N tid c (pool cfg) f = Some (s', fs)"
    and cfg': "cfg' = \<lparr>pool = s', threads = (threads cfg)(tid := fs @ stack)\<rparr>"
    by (rule stepE)
  from inv have "list_all (\<lambda>f. \<not> holds_lock f) (tl (threads cfg tid))
      \<and> (top_holds_lock cfg tid \<longleftrightarrow> waiters_lock (pool cfg) = Some tid)"
    unfolding lock_inv_def by (rule spec)
  with th have below: "list_all (\<lambda>f. \<not> holds_lock f) stack"
    and top: "holds_lock f \<longleftrightarrow> waiters_lock (pool cfg) = Some tid"
    by (simp_all add: top_holds_lock_def)
  note ls = lock_step[OF fs top]
  show ?thesis unfolding lock_inv_def
  proof (intro allI conjI)
    fix j
    show "list_all (\<lambda>f. \<not> holds_lock f) (tl (threads cfg' j))"
    proof (cases "j = tid")
      case True
      then show ?thesis using ls below cfg' by (cases fs; cases stack) auto
    next
      case False
      then show ?thesis using inv cfg' by (simp add: lock_inv_def)
    qed
    show "top_holds_lock cfg' j \<longleftrightarrow> waiters_lock (pool cfg') = Some j"
    proof (cases "j = tid")
      case True
      then show ?thesis using ls below cfg'
        by (cases fs; cases stack) (auto simp: top_holds_lock_def)
    next
      case False
      then have "top_holds_lock cfg' j = top_holds_lock cfg j"
        using cfg' by (simp add: top_holds_lock_def)
      moreover have "top_holds_lock cfg j \<longleftrightarrow> waiters_lock (pool cfg) = Some j"
        using inv by (simp add: lock_inv_def)
      ultimately show ?thesis using ls False cfg' by simp
    qed
  qed
qed

lemma lock_inv_init: "lock_inv (init N)"
  by (simp add: lock_inv_def init_def init_pool_def top_holds_lock_def)

lemma lock_inv_exec: "exec N sched = Some cfg \<Longrightarrow> lock_inv cfg"
  unfolding exec_def by (erule run_steps_invariant) (rule lock_inv_init, rule lock_inv_step)

lemma drained_snoc: "drained (ts @ [t]) = drained ts @ [APublicPop (Some t), ARun t]"
  by (simp add: drained_def)

lemma waiters_ok_cong:
  "waiters s' = waiters s \<Longrightarrow> waiters_ok N s' f = waiters_ok N s f"
  by (cases "(N, s, f)" rule: waiters_ok.cases) auto

lemma waiters_ok_free:
  "\<not> holds_lock f \<Longrightarrow> waiters_ok N s' f = waiters_ok N s f"
  by (cases "(N, s, f)" rule: waiters_ok.cases) (auto split: spc.splits)

lemma waiters_ok_below:
  "\<not> holds_lock f \<Longrightarrow> waiters_ok N s f \<Longrightarrow> waiters_ok N s' f"
  by (simp add: waiters_ok_free[of f N s' s])

lemma waiters_step:
  assumes "frame_step N tid c s f = Some (s', fs)"
    and "holds_lock f \<longleftrightarrow> waiters_lock s = Some tid"
    and "waiters_lock s = Some j" and "j \<noteq> tid"
  shows "waiters s' = waiters s"
proof (cases f)
  case (Worker pc tr)
  with assms show ?thesis
    by (cases pc) (auto simp: frame_step_def prim_defs split: step_splits choice.splits dest!: steal_task_pool)
next
  case (WaitHandler pc T added tr)
  with assms show ?thesis
    by (cases pc) (auto simp: frame_step_def prim_defs split: step_splits choice.splits dest!: steal_task_pool)
next
  case (Schedule pc t tr)
  with assms show ?thesis
    by (cases pc) (auto simp: frame_step_def prim_defs split: step_splits)
next
  case (Generic pc T tr)
  with assms show ?thesis
    by (cases pc) (auto simp: frame_step_def prim_defs split: step_splits)
next
  case (Destructor pc tr)
  with assms show ?thesis
    by (cases pc) (auto simp: frame_step_def prim_defs split: step_splits)
next
  case (Run t)
  with assms show ?thesis
    by (cases c) (auto simp: frame_step_def prim_defs split: if_splits wait_handler.splits)
next
  case User
  with assms show ?thesis
    by (cases c) (auto simp: frame_step_def prim_defs split: if_splits wait_handler.splits)
next
  case (Custom T)
  with assms show ?thesis
    by (cases c) (auto simp: frame_step_def prim_defs split: if_splits wait_handler.splits)
qed

lemma destructor_ok_step:
  assumes "destructor N tid s pc tr = Some (s', fs)" and "waiters_ok N s (Destructor pc tr)"
  shows "list_all (waiters_ok N s') fs"
proof (cases pc)
  case D_SetShutdown
  with assms show ?thesis by auto
next
  case D_Lock
  with assms show ?thesis by (auto simp: prim_defs split: if_splits)
next
  case (D_Signal k)
  with assms show ?thesis
    by (auto simp: prim_defs take_Suc_conv_app_nth split: if_splits)
next
  case D_Clear
  with assms show ?thesis by auto
next
  case D_Unlock
  with assms show ?thesis by (auto simp: prim_defs shutdown_prefix_def)
next
  case (D_Join k)
  from assms(2) D_Join obtain ws where k: "k \<le> N"
    and tr: "tr = shutdown_prefix ws @ map AJoin [0..<k]" by auto
  show ?thesis
  proof (cases "k < N")
    case True
    with assms D_Join tr show ?thesis by (auto split: if_splits)
  next
    case False
    with k have "k = N" by simp
    with assms D_Join have "fs = [Destructor D_Drain tr]" by simp
    moreover have "tr = shutdown_prefix ws @ map AJoin [0..<N] @ drained []"
      using tr \<open>k = N\<close> by (simp add: drained_def)
    ultimately show ?thesis by (simp del: append_assoc) blast
  qed
next
  case D_Drain
  from assms(2) D_Drain obtain ws ts where
    tr: "tr = shutdown_prefix ws @ map AJoin [0..<N] @ drained ts" by auto
  show ?thesis
  proof (cases "public_queue s")
    case Nil
    with assms D_Drain have "fs = [Destructor D_Done (tr @ [APublicPop None])]"
      by (auto simp: prim_defs)
    moreover have "tr @ [APublicPop None]
        = shutdown_prefix ws @ map AJoin [0..<N] @ drained ts @ [APublicPop None]"
      using tr by simp
    ultimately show ?thesis by (simp del: append_assoc) blast
  next
    case (Cons t q)
    with assms D_Drain have "fs = [Run t, Destructor D_Drain (tr @ [APublicPop (Some t), ARun t])]"
      by (auto simp: prim_defs)
    moreover have "tr @ [APublicPop (Some t), ARun t]
        = shutdown_prefix ws @ map AJoin [0..<N] @ drained (ts @ [t])"
      using tr by (simp add: drained_snoc)
    ultimately show ?thesis by (simp del: append_assoc) blast
  qed
next
  case D_Done
  with assms show ?thesis by auto
qed

lemma waiters_ok_step:
  assumes "frame_step N tid c s f = Some (s', fs)" and "waiters_ok N s f"
  shows "list_all (waiters_ok N s') fs"
proof (cases f)
  case (Worker pc tr)
  with assms show ?thesis
    by (cases pc) (auto simp: frame_step_def split: step_splits choice.splits)
next
  case (WaitHandler pc T added tr)
  with assms show ?thesis
    by (cases pc) (auto simp: frame_step_def split: step_splits choice.splits)
next
  case (Schedule pc t tr)
  with assms show ?thesis
    by (cases pc) (auto simp: frame_step_def prim_defs split: step_splits)
next
  case (Generic pc T tr)
  with assms show ?thesis
    by (cases pc) (auto simp: frame_step_def split: step_splits)
next
  case (Destructor pc tr)
  with assms show ?thesis
    by (auto simp: frame_step_def intro: destructor_ok_step)
next
  case (Run t)
  with assms show ?thesis
    by (cases c) (auto simp: frame_step_def prim_defs split: if_splits wait_handler.splits)
next
  case User
  with assms show ?thesis
    by (cases c) (auto simp: frame_step_def prim_defs split: if_splits wait_handler.splits)
next
  case (Custom T)
  with assms show ?thesis
    by (cases c) (auto simp: frame_step_def prim_defs split: if_splits wait_handler.splits)
qed

lemma waiters_inv_step:
  assumes inv: "waiters_inv N cfg" and st: "step N a cfg = Some cfg'"
  shows "waiters_inv N cfg'"
proof -
  from inv have li: "lock_inv cfg" by (simp add: waiters_inv_def)
  then have li': "lock_inv cfg'" using st by (rule lock_inv_step)
  obtain tid c where a: "a = (tid, c)" by (cases a)
  from st[unfolded a] obtain f stack s' fs where
    th: "threads cfg tid = f # stack" and fs: "frame_step N tid c (pool cfg) f = Some (s', fs)"
    and cfg': "cfg' = \<lparr>pool = s', threads = (threads cfg)(tid := fs @ stack)\<rparr>"
    by (rule stepE)
  from li have "list_all (\<lambda>f. \<not> holds_lock f) (tl (threads cfg tid))
      \<and> (top_holds_lock cfg tid \<longleftrightarrow> waiters_lock (pool cfg) = Some tid)"
    unfolding lock_inv_def by (rule spec)
  with th have below: "list_all (\<lambda>f. \<not> holds_lock f) stack"
    and top: "holds_lock f \<longleftrightarrow> waiters_lock (pool cfg) = Some tid"
    by (simp_all add: top_holds_lock_def)
  have ok: "list_all (waiters_ok N (pool cfg)) (threads cfg j)" for j
    using inv by (simp add: waiters_inv_def)
  have "list_all (waiters_ok N s') (threads cfg' j)" for j
  proof (cases "j = tid")
    case True
    from ok[of tid] th have f: "waiters_ok N (pool cfg) f"
      and st: "list_all (waiters_ok N (pool cfg)) stack" by simp_all
    from waiters_ok_step[OF fs f] have 1: "list_all (waiters_ok N s') fs" .
    from st below have 2: "list_all (waiters_ok N s') stack"
      by (induction stack) (auto simp: waiters_ok_below[of _ N "pool cfg" s'])
    from 1 2 True cfg' show ?thesis by simp
  next
    case False
    have "waiters_ok N s' g" if g: "g \<in> set (threads cfg j)" for g
    proof (cases "holds_lock g")
      case True
      from li have lj: "list_all (\<lambda>f. \<not> holds_lock f) (tl (threads cfg j))
        \<and> (top_holds_lock cfg j \<longleftrightarrow> waiters_lock (pool cfg) = Some j)"
        unfolding lock_inv_def by (rule spec)
      with True g have "waiters_lock (pool cfg) = Some j"
        by (cases "threads cfg j") (auto simp: top_holds_lock_def list_all_iff)
      from waiters_step[OF fs top this False] have "waiters s' = waiters (pool cfg)" .
      from waiters_ok_cong[OF this, of N g] show ?thesis using ok[of j] g by (simp add: list_all_iff)
    next
      case False
      then show ?thesis using ok[of j] g by (auto simp: list_all_iff waiters_ok_below[of _ N "pool cfg" s'])
    qed
    with False cfg' show ?thesis by (simp add: list_all_iff)
  qed
  with li' cfg' show ?thesis by (simp add: waiters_inv_def)
qed

lemma waiters_inv_init: "waiters_inv N (init N)"
  using lock_inv_init[of N] by (simp add: waiters_inv_def init_def)

lemma waiters_inv_exec: "exec N sched = Some cfg \<Longrightarrow> waiters_inv N cfg"
  unfolding exec_def by (erule run_steps_invariant) (rule waiters_inv_init, rule waiters_inv_step)

lemma top_lock:
  assumes "exec N sched = Some cfg" and "threads cfg j = f # stack"
  shows "holds_lock f \<longleftrightarrow> waiters_lock (pool cfg) = Some j"
proof -
  from waiters_inv_exec[OF assms(1)] have "lock_inv cfg" by (simp add: waiters_inv_def)
  then have "top_holds_lock cfg j \<longleftrightarrow> waiters_lock (pool cfg) = Some j"
    by (simp add: lock_inv_def)
  with assms(2) show ?thesis by (simp add: top_holds_lock_def)
qed

lemma top_waiters_ok:
  assumes "exec N sched = Some cfg" and "threads cfg j = f # stack"
  shows "waiters_ok N (pool cfg) f"
proof -
  from waiters_inv_exec[OF assms(1)] have "list_all (waiters_ok N (pool cfg)) (threads cfg j)"
    by (simp add: waiters_inv_def)
  with assms(2) show ?thesis by simp
qed

section \<open>The workers and the destructor\<close>

lemma worker_ok_single:
  "(pc \<noteq> W_LocalPop \<longrightarrow> queues s i = []) \<Longrightarrow> (finished s i \<longleftrightarrow> pc = W_Exit)
   \<Longrightarrow> worker_ok s i [Worker pc tr]"
  unfolding worker_ok_def by (intro exI[of _ "[]"] exI[of _ pc] exI[of _ tr]) simp

lemma worker_ok_nested:
  "list_all (\<lambda>f. \<not> is_worker f) fs \<Longrightarrow> \<not> finished s i
   \<Longrightarrow> worker_ok s i (fs @ [Worker W_LocalPop tr])"
  unfolding worker_ok_def by (intro exI[of _ fs] exI[of _ W_LocalPop] exI[of _ tr]) simp

lemma worker_own_step:
  assumes "worker_thread N i c s pc tr = Some (s', fs)"
    and "pc \<noteq> W_LocalPop \<longrightarrow> queues s i = []" and "finished s i \<longleftrightarrow> pc = W_Exit"
  shows "worker_ok s' i fs"
proof -
  have "(\<exists>pc' tr'. fs = [Worker pc' tr'] \<and> (pc' \<noteq> W_LocalPop \<longrightarrow> queues s' i = [])
            \<and> (finished s' i \<longleftrightarrow> pc' = W_Exit))
      \<or> (\<exists>t tr'. fs = [Run t] @ [Worker W_LocalPop tr'] \<and> \<not> finished s' i)"
    using assms
    by (cases pc) (auto simp: prim_defs split: step_splits choice.splits dest!: steal_task_pool)
  then show ?thesis
    by (auto intro: worker_ok_single worker_ok_nested simp del: append.simps)
qed

lemma nonworker_step:
  assumes "frame_step N tid c s f = Some (s', fs)" and "\<not> is_worker f"
  shows "list_all (\<lambda>f. \<not> is_worker f) fs \<and> finished s' = finished s"
proof (cases f)
  case (Worker pc tr)
  with assms show ?thesis by simp
next
  case (WaitHandler pc T added tr)
  with assms show ?thesis
    by (cases pc) (auto simp: frame_step_def prim_defs split: step_splits choice.splits dest!: steal_task_pool)
next
  case (Schedule pc t tr)
  with assms show ?thesis
    by (cases pc) (auto simp: frame_step_def prim_defs split: step_splits)
next
  case (Generic pc T tr)
  with assms show ?thesis
    by (cases pc) (auto simp: frame_step_def prim_defs split: step_splits)
next
  case (Destructor pc tr)
  with assms show ?thesis
    by (cases pc) (auto simp: frame_step_def prim_defs split: step_splits)
next
  case (Run t)
  with assms show ?thesis
    by (cases c) (auto simp: frame_step_def prim_defs split: if_splits wait_handler.splits)
next
  case User
  with assms show ?thesis
    by (cases c) (auto simp: frame_step_def prim_defs split: if_splits wait_handler.splits)
next
  case (Custom T)
  with assms show ?thesis
    by (cases c) (auto simp: frame_step_def prim_defs split: if_splits wait_handler.splits)
qed

text \<open>
  What a step of one thread does to the others: it puts nothing on their deques, it
  does not end them, and it clears no event local to their \<open>generic_wait_handler\<close>.
  No step brings a finished worker back or makes a completed task incomplete.
\<close>

lemma others_step:
  assumes "frame_step N tid c s f = Some (s', fs)"
  shows "(\<forall>i. i \<noteq> tid \<longrightarrow> (queues s i = [] \<longrightarrow> queues s' i = []) \<and> finished s' i = finished s i
             \<and> (events s (LocalEvent i) \<longrightarrow> events s' (LocalEvent i)))
       \<and> (\<forall>i. finished s i \<longrightarrow> finished s' i) \<and> (\<forall>T. ready s T \<longrightarrow> ready s' T)"
proof (cases f)
  case (Worker pc tr)
  with assms show ?thesis
    by (cases pc) (auto simp: frame_step_def prim_defs split: step_splits choice.splits dest!: steal_task_pool)
next
  case (WaitHandler pc T added tr)
  with assms show ?thesis
    by (cases pc) (auto simp: frame_step_def prim_defs split: step_splits choice.splits dest!: steal_task_pool)
next
  case (Schedule pc t tr)
  with assms show ?thesis
    by (cases pc) (auto simp: frame_step_def prim_defs split: step_splits)
next
  case (Generic pc T tr)
  with assms show ?thesis
    by (cases pc) (auto simp: frame_step_def prim_defs split: step_splits)
next
  case (Destructor pc tr)
  with assms show ?thesis
    by (cases pc) (auto simp: frame_step_def prim_defs split: step_splits)
next
  case (Run t)
  with assms show ?thesis
    by (cases c) (auto simp: frame_step_def prim_defs split: if_splits wait_handler.splits)
next
  case User
  with assms show ?thesis
    by (cases c) (auto simp: frame_step_def prim_defs split: if_splits wait_handler.splits)
next
  case (Custom T)
  with assms show ?thesis
    by (cases c) (auto simp: frame_step_def prim_defs split: if_splits wait_handler.splits)
qed

lemma worker_ok_other:
  assumes "worker_ok s i stack" and "queues s i = [] \<longrightarrow> queues s' i = []"
    and "finished s' i = finished s i"
  shows "worker_ok s' i stack"
  using assms unfolding worker_ok_def by metis

lemma worker_inv_step:
  assumes inv: "worker_inv N cfg" and st: "step N a cfg = Some cfg'"
  shows "worker_inv N cfg'"
proof -
  obtain tid c where a: "a = (tid, c)" by (cases a)
  from st[unfolded a] obtain f stack s' fs where
    th: "threads cfg tid = f # stack" and fs: "frame_step N tid c (pool cfg) f = Some (s', fs)"
    and cfg': "cfg' = \<lparr>pool = s', threads = (threads cfg)(tid := fs @ stack)\<rparr>"
    by (rule stepE)
  have "worker_ok s' i (threads cfg' i)" if i: "i < N" for i
  proof (cases "i = tid")
    case True
    from inv i have "worker_ok (pool cfg) i (threads cfg i)" by (simp add: worker_inv_def)
    with True th obtain fs0 pc tr where
      e: "f # stack = fs0 @ [Worker pc tr]" and nw: "list_all (\<lambda>f. \<not> is_worker f) fs0"
      and lp: "fs0 \<noteq> [] \<longrightarrow> pc = W_LocalPop" and q: "pc \<noteq> W_LocalPop \<longrightarrow> queues (pool cfg) i = []"
      and fin: "finished (pool cfg) i \<longleftrightarrow> pc = W_Exit"
      unfolding worker_ok_def by auto
    show ?thesis
    proof (cases fs0)
      case Nil
      with e have f: "f = Worker pc tr" and s: "stack = []" by simp_all
      from fs f True have "worker_thread N i c (pool cfg) pc tr = Some (s', fs)"
        by (simp add: frame_step_def)
      from worker_own_step[OF this q fin] show ?thesis using cfg' True s by simp
    next
      case (Cons g fs1)
      with e nw lp have f: "f = g" "\<not> is_worker f" and s: "stack = fs1 @ [Worker W_LocalPop tr]"
        and n1: "list_all (\<lambda>f. \<not> is_worker f) fs1" by simp_all
      from Cons lp fin have nf: "\<not> finished (pool cfg) i" by simp
      from nonworker_step[OF fs f(2)] have n2: "list_all (\<lambda>f. \<not> is_worker f) fs"
        and "finished s' = finished (pool cfg)" by simp_all
      with nf have "\<not> finished s' i" by simp
      with n1 n2 have "worker_ok s' i ((fs @ fs1) @ [Worker W_LocalPop tr])"
        by (intro worker_ok_nested) simp_all
      then show ?thesis using cfg' True s by simp
    qed
  next
    case False
    from inv i have "worker_ok (pool cfg) i (threads cfg i)" by (simp add: worker_inv_def)
    moreover from others_step[OF fs] False
    have "queues (pool cfg) i = [] \<longrightarrow> queues s' i = []" "finished s' i = finished (pool cfg) i"
      by simp_all
    ultimately have "worker_ok s' i (threads cfg i)" by (rule worker_ok_other)
    then show ?thesis using cfg' False by simp
  qed
  then show ?thesis using cfg' by (simp add: worker_inv_def)
qed

lemma worker_inv_init: "worker_inv N (init N)"
  by (auto simp: worker_inv_def init_def init_pool_def intro!: worker_ok_single)

lemma worker_inv_exec: "exec N sched = Some cfg \<Longrightarrow> worker_inv N cfg"
  unfolding exec_def by (erule run_steps_invariant) (rule worker_inv_init, rule worker_inv_step)

lemma joined_mono:
  "joined N s f \<Longrightarrow> (\<forall>i. finished s i \<longrightarrow> finished s' i) \<Longrightarrow> joined N s' f"
  by (cases "(N, s, f)" rule: joined.cases) auto

lemma joined_step:
  assumes "frame_step N tid c s f = Some (s', fs)" and "joined N s f"
  shows "list_all (joined N s') fs"
proof (cases f)
  case (Worker pc tr)
  with assms show ?thesis
    by (cases pc) (auto simp: frame_step_def split: step_splits choice.splits)
next
  case (WaitHandler pc T added tr)
  with assms show ?thesis
    by (cases pc) (auto simp: frame_step_def split: step_splits choice.splits)
next
  case (Schedule pc t tr)
  with assms show ?thesis
    by (cases pc) (auto simp: frame_step_def split: step_splits)
next
  case (Generic pc T tr)
  with assms show ?thesis
    by (cases pc) (auto simp: frame_step_def split: step_splits)
next
  case (Destructor pc tr)
  with assms show ?thesis
    by (cases pc) (auto simp: frame_step_def prim_defs less_Suc_eq split: step_splits)
next
  case (Run t)
  with assms show ?thesis
    by (cases c) (auto simp: frame_step_def prim_defs split: if_splits wait_handler.splits)
next
  case User
  with assms show ?thesis
    by (cases c) (auto simp: frame_step_def prim_defs split: if_splits wait_handler.splits)
next
  case (Custom T)
  with assms show ?thesis
    by (cases c) (auto simp: frame_step_def prim_defs split: if_splits wait_handler.splits)
qed

lemma join_inv_step:
  assumes inv: "join_inv N cfg" and st: "step N a cfg = Some cfg'"
  shows "join_inv N cfg'"
proof -
  obtain tid c where a: "a = (tid, c)" by (cases a)
  from st[unfolded a] obtain f stack s' fs where
    th: "threads cfg tid = f # stack" and fs: "frame_step N tid c (pool cfg) f = Some (s', fs)"
    and cfg': "cfg' = \<lparr>pool = s', threads = (threads cfg)(tid := fs @ stack)\<rparr>"
    by (rule stepE)
  from others_step[OF fs] have mono: "\<forall>i. finished (pool cfg) i \<longrightarrow> finished s' i" by simp
  have ok: "list_all (joined N (pool cfg)) (threads cfg j)" for j
    using inv by (simp add: join_inv_def)
  have keep: "list_all (joined N s') xs" if "list_all (joined N (pool cfg)) xs" for xs
    using that mono by (induction xs) (auto intro: joined_mono[of N "pool cfg" _ s'])
  have "list_all (joined N s') (threads cfg' j)" for j
  proof (cases "j = tid")
    case True
    from ok[of tid] th have f: "joined N (pool cfg) f"
      and st: "list_all (joined N (pool cfg)) stack" by simp_all
    from joined_step[OF fs f] keep[OF st] True cfg' show ?thesis by simp
  next
    case False
    with keep[OF ok[of j]] cfg' show ?thesis by simp
  qed
  with cfg' show ?thesis by (simp add: join_inv_def)
qed

lemma join_inv_init: "join_inv N (init N)"
  by (simp add: join_inv_def init_def)

lemma join_inv_exec: "exec N sched = Some cfg \<Longrightarrow> join_inv N cfg"
  unfolding exec_def by (erule run_steps_invariant) (rule join_inv_init, rule join_inv_step)

section \<open>The destructor\<close>

lemma exec_step: "exec N sched = Some cfg \<Longrightarrow> exec N (sched @ [a]) = step N a cfg"
  by (simp add: exec_def run_steps_append split: option.splits)

lemma exec_snoc:
  "exec N sched = Some cfg \<Longrightarrow> step N a cfg = Some cfg' \<Longrightarrow> exec N (sched @ [a]) = Some cfg'"
  by (simp add: exec_def run_steps_append)

lemma top_joined:
  assumes "exec N sched = Some cfg" and "threads cfg j = f # stack"
  shows "joined N (pool cfg) f"
proof -
  from join_inv_exec[OF assms(1)] have "list_all (joined N (pool cfg)) (threads cfg j)"
    by (simp add: join_inv_def)
  with assms(2) show ?thesis by simp
qed

lemma returned_worker:
  assumes "exec N sched = Some cfg" and "i < N"
  shows "finished (pool cfg) i \<longleftrightarrow> (\<exists>wtr. threads cfg i = [Worker W_Exit wtr])"
proof -
  from worker_inv_exec[OF assms(1)] assms(2) have "worker_ok (pool cfg) i (threads cfg i)"
    by (simp add: worker_inv_def)
  then show ?thesis unfolding worker_ok_def by (cases "threads cfg i") auto
qed

lemma locked_list:
  assumes ex: "exec N sched = Some cfg" and th: "threads cfg d = f # stack" and h: "holds_lock f"
    and j: "j \<noteq> d" and st: "step N (j, c) cfg = Some cfg'"
  shows "waiters (pool cfg') = waiters (pool cfg)"
proof -
  from top_lock[OF ex th] h have l: "waiters_lock (pool cfg) = Some d" by simp
  from st obtain g stack0 s' fs where
    tj: "threads cfg j = g # stack0" and fs: "frame_step N j c (pool cfg) g = Some (s', fs)"
    and cfg': "cfg' = \<lparr>pool = s', threads = (threads cfg)(j := fs @ stack0)\<rparr>"
    by (rule stepE)
  from waiters_step[OF fs top_lock[OF ex tj] l] j cfg' show ?thesis by simp
qed

text \<open>
  Claim C3, as stated: after the destructor has returned no task is left in the public
  queue. In the run \<open>late_push\<close> thread 2 enters \<open>schedule(7)\<close> and reads \<open>shutdown\<close>
  before the destructor sets it; the destructor then runs to its end, finding the
  public queue empty; thread 2 then pushes task 7, which stays in the public queue.
\<close>

theorem c3_counterexample:
  "thread_of (exec 1 late_push) 1 =
     [Destructor D_Done [ASetShutdown, ALock, ASignal (WorkerEvent 0), AClear [WorkerEvent 0],
        AUnlock, AJoin 0, APublicPop None]]
   \<and> thread_of (exec 1 late_push) 2 = [Schedule S_Empty1 7 [AShutdown False, APushPublic 7], User]
   \<and> public_queue (pool (the (exec 1 late_push))) = [7]"
  by (simp add: late_push_def parked_def eval_defs)

text \<open>
  Claim C3, amended. The destructor sets \<open>shutdown\<close>; it takes \<open>waiters_lock\<close> when the
  lock is free; holding it, it signals the waiters of the list one by one, in the order
  of the list, and clears the list, and no other thread changes the list meanwhile; it
  releases the lock; it joins the workers \<open>0..N-1\<close> in turn, each join blocking until
  that worker has returned from \<open>worker_thread\<close>; it then pops the public queue and runs
  each task it pops on its own thread, and returns at the pop that finds the queue
  empty. So the destructor returns only if every worker returns, and at the step by
  which it returns the public queue is empty. Once it has returned, every worker has
  returned and the deque of every worker is empty, and this stays so.
\<close>

theorem c3_destructor:
  assumes ex: "exec N sched = Some cfg"
  shows "(threads cfg d = Destructor D_SetShutdown tr # stack \<longrightarrow>
            tr = []
            \<and> step N (d, c) cfg =
                Some \<lparr>pool = (pool cfg)\<lparr>shutdown := True\<rparr>,
                      threads = (threads cfg)(d := Destructor D_Lock [ASetShutdown] # stack)\<rparr>)
       \<and> (threads cfg d = Destructor D_Lock tr # stack \<longrightarrow>
            tr = [ASetShutdown]
            \<and> step N (d, c) cfg =
                (if waiters_lock (pool cfg) = None
                 then Some \<lparr>pool = (pool cfg)\<lparr>waiters_lock := Some d\<rparr>,
                            threads = (threads cfg)
                              (d := Destructor (D_Signal 0) [ASetShutdown, ALock] # stack)\<rparr>
                 else None))
       \<and> (threads cfg d = Destructor (D_Signal k) tr # stack \<longrightarrow>
            waiters_lock (pool cfg) = Some d \<and> k \<le> length (waiters (pool cfg))
            \<and> tr = [ASetShutdown, ALock] @ map ASignal (take k (waiters (pool cfg)))
            \<and> step N (d, c) cfg =
                Some (if k < length (waiters (pool cfg))
                      then \<lparr>pool = (pool cfg)\<lparr>events := (events (pool cfg))
                                     (waiters (pool cfg) ! k := True)\<rparr>,
                            threads = (threads cfg)
                              (d := Destructor (D_Signal (Suc k))
                                      (tr @ [ASignal (waiters (pool cfg) ! k)]) # stack)\<rparr>
                      else \<lparr>pool = pool cfg,
                            threads = (threads cfg)(d := Destructor D_Clear tr # stack)\<rparr>))
       \<and> (threads cfg d = Destructor D_Clear tr # stack \<longrightarrow>
            waiters_lock (pool cfg) = Some d
            \<and> tr = [ASetShutdown, ALock] @ map ASignal (waiters (pool cfg))
            \<and> step N (d, c) cfg =
                Some \<lparr>pool = (pool cfg)\<lparr>waiters := []\<rparr>,
                      threads = (threads cfg)
                        (d := Destructor D_Unlock (tr @ [AClear (waiters (pool cfg))]) # stack)\<rparr>)
       \<and> (threads cfg d = Destructor D_Unlock tr # stack \<longrightarrow>
            waiters_lock (pool cfg) = Some d \<and> waiters (pool cfg) = []
            \<and> step N (d, c) cfg =
                Some \<lparr>pool = (pool cfg)\<lparr>waiters_lock := None\<rparr>,
                      threads = (threads cfg)(d := Destructor (D_Join 0) (tr @ [AUnlock]) # stack)\<rparr>)
       \<and> (threads cfg d = Destructor pc tr # stack
            \<and> (pc = D_Signal k \<or> pc = D_Clear \<or> pc = D_Unlock)
            \<and> j \<noteq> d \<and> step N (j, c) cfg = Some cfg' \<longrightarrow>
            waiters (pool cfg') = waiters (pool cfg))
       \<and> (threads cfg d = Destructor (D_Join i) tr # stack \<longrightarrow>
            i \<le> N \<and> (\<forall>k<i. finished (pool cfg) k)
            \<and> step N (d, c) cfg =
                (if i < N
                 then (if finished (pool cfg) i
                       then Some \<lparr>pool = pool cfg,
                                  threads = (threads cfg)
                                    (d := Destructor (D_Join (Suc i)) (tr @ [AJoin i]) # stack)\<rparr>
                       else None)
                 else Some \<lparr>pool = pool cfg,
                            threads = (threads cfg)(d := Destructor D_Drain tr # stack)\<rparr>))
       \<and> (i < N \<longrightarrow> (finished (pool cfg) i \<longleftrightarrow> (\<exists>wtr. threads cfg i = [Worker W_Exit wtr])))
       \<and> (threads cfg d = Destructor D_Drain tr # stack \<longrightarrow>
            step N (d, c) cfg =
              Some (case public_queue (pool cfg) of
                      [] \<Rightarrow> \<lparr>pool = pool cfg,
                              threads = (threads cfg)
                                (d := Destructor D_Done (tr @ [APublicPop None]) # stack)\<rparr>
                    | t # q \<Rightarrow> \<lparr>pool = (pool cfg)\<lparr>public_queue := q\<rparr>,
                                 threads = (threads cfg)
                                   (d := Run t # Destructor D_Drain
                                           (tr @ [APublicPop (Some t), ARun t]) # stack)\<rparr>))
       \<and> (threads cfg d = Destructor D_Drain tr # stack \<and> step N (d, c) cfg = Some cfg'
            \<and> threads cfg' d = Destructor D_Done tr' # stack \<longrightarrow>
            public_queue (pool cfg') = [])
       \<and> (Destructor D_Done tr \<in> set (threads cfg d) \<longrightarrow>
            (\<exists>ws ts. tr = [ASetShutdown, ALock] @ map ASignal ws @ [AClear ws, AUnlock]
                        @ map AJoin [0..<N] @ drained ts @ [APublicPop None])
            \<and> (\<forall>i<N. queues (pool cfg) i = [] \<and> finished (pool cfg) i
                      \<and> (\<exists>wtr. threads cfg i = [Worker W_Exit wtr])))"
proof -
  have 1: "tr = []
      \<and> step N (d, c) cfg =
          Some \<lparr>pool = (pool cfg)\<lparr>shutdown := True\<rparr>,
                threads = (threads cfg)(d := Destructor D_Lock [ASetShutdown] # stack)\<rparr>"
    if th: "threads cfg d = Destructor D_SetShutdown tr # stack"
    using top_waiters_ok[OF ex th] th by (simp add: step_def frame_step_def)
  have 2: "tr = [ASetShutdown]
      \<and> step N (d, c) cfg =
          (if waiters_lock (pool cfg) = None
           then Some \<lparr>pool = (pool cfg)\<lparr>waiters_lock := Some d\<rparr>,
                      threads = (threads cfg)
                        (d := Destructor (D_Signal 0) [ASetShutdown, ALock] # stack)\<rparr>
           else None)"
    if th: "threads cfg d = Destructor D_Lock tr # stack"
    using top_waiters_ok[OF ex th] th by (simp add: step_def frame_step_def spin_lock_def)
  have 3: "waiters_lock (pool cfg) = Some d \<and> k \<le> length (waiters (pool cfg))
      \<and> tr = [ASetShutdown, ALock] @ map ASignal (take k (waiters (pool cfg)))
      \<and> step N (d, c) cfg =
          Some (if k < length (waiters (pool cfg))
                then \<lparr>pool = (pool cfg)\<lparr>events := (events (pool cfg))
                               (waiters (pool cfg) ! k := True)\<rparr>,
                      threads = (threads cfg)
                        (d := Destructor (D_Signal (Suc k))
                                (tr @ [ASignal (waiters (pool cfg) ! k)]) # stack)\<rparr>
                else \<lparr>pool = pool cfg,
                      threads = (threads cfg)(d := Destructor D_Clear tr # stack)\<rparr>)"
    if th: "threads cfg d = Destructor (D_Signal k) tr # stack"
    using top_waiters_ok[OF ex th] top_lock[OF ex th] th
    by (simp add: step_def frame_step_def event_signal_def)
  have 4: "waiters_lock (pool cfg) = Some d
      \<and> tr = [ASetShutdown, ALock] @ map ASignal (waiters (pool cfg))
      \<and> step N (d, c) cfg =
          Some \<lparr>pool = (pool cfg)\<lparr>waiters := []\<rparr>,
                threads = (threads cfg)
                  (d := Destructor D_Unlock (tr @ [AClear (waiters (pool cfg))]) # stack)\<rparr>"
    if th: "threads cfg d = Destructor D_Clear tr # stack"
    using top_waiters_ok[OF ex th] top_lock[OF ex th] th by (simp add: step_def frame_step_def)
  have 5: "waiters_lock (pool cfg) = Some d \<and> waiters (pool cfg) = []
      \<and> step N (d, c) cfg =
          Some \<lparr>pool = (pool cfg)\<lparr>waiters_lock := None\<rparr>,
                threads = (threads cfg)(d := Destructor (D_Join 0) (tr @ [AUnlock]) # stack)\<rparr>"
    if th: "threads cfg d = Destructor D_Unlock tr # stack"
    using top_waiters_ok[OF ex th] top_lock[OF ex th] th
    by (simp add: step_def frame_step_def spin_unlock_def)
  have 6: "waiters (pool cfg') = waiters (pool cfg)"
    if th: "threads cfg d = Destructor pc tr # stack"
      and pc: "pc = D_Signal k \<or> pc = D_Clear \<or> pc = D_Unlock"
      and j: "j \<noteq> d" and st: "step N (j, c) cfg = Some cfg'"
  proof -
    from pc have "holds_lock (Destructor pc tr)" by auto
    from locked_list[OF ex th this j st] show ?thesis .
  qed
  have 7: "i \<le> N \<and> (\<forall>k<i. finished (pool cfg) k)
      \<and> step N (d, c) cfg =
          (if i < N
           then (if finished (pool cfg) i
                 then Some \<lparr>pool = pool cfg,
                            threads = (threads cfg)
                              (d := Destructor (D_Join (Suc i)) (tr @ [AJoin i]) # stack)\<rparr>
                 else None)
           else Some \<lparr>pool = pool cfg,
                      threads = (threads cfg)(d := Destructor D_Drain tr # stack)\<rparr>)"
    if th: "threads cfg d = Destructor (D_Join i) tr # stack"
    using top_waiters_ok[OF ex th] top_joined[OF ex th] th by (simp add: step_def frame_step_def)
  have 8: "finished (pool cfg) i \<longleftrightarrow> (\<exists>wtr. threads cfg i = [Worker W_Exit wtr])" if "i < N"
    using ex that by (rule returned_worker)
  have 9: "step N (d, c) cfg =
      Some (case public_queue (pool cfg) of
              [] \<Rightarrow> \<lparr>pool = pool cfg,
                      threads = (threads cfg)
                        (d := Destructor D_Done (tr @ [APublicPop None]) # stack)\<rparr>
            | t # q \<Rightarrow> \<lparr>pool = (pool cfg)\<lparr>public_queue := q\<rparr>,
                         threads = (threads cfg)
                           (d := Run t # Destructor D_Drain
                                   (tr @ [APublicPop (Some t), ARun t]) # stack)\<rparr>)"
    if th: "threads cfg d = Destructor D_Drain tr # stack"
    using th by (cases "public_queue (pool cfg)") (simp_all add: step_def frame_step_def fifo_pop_def)
  have 10: "public_queue (pool cfg') = []"
    if th: "threads cfg d = Destructor D_Drain tr # stack" and st: "step N (d, c) cfg = Some cfg'"
      and after: "threads cfg' d = Destructor D_Done tr' # stack"
    using 9[OF th] st after by (cases "public_queue (pool cfg)") auto
  have 11: "(\<exists>ws ts. tr = [ASetShutdown, ALock] @ map ASignal ws @ [AClear ws, AUnlock]
                        @ map AJoin [0..<N] @ drained ts @ [APublicPop None])
      \<and> (\<forall>i<N. queues (pool cfg) i = [] \<and> finished (pool cfg) i
                \<and> (\<exists>wtr. threads cfg i = [Worker W_Exit wtr]))"
    if mem: "Destructor D_Done tr \<in> set (threads cfg d)"
  proof -
    from waiters_inv_exec[OF ex] have "list_all (waiters_ok N (pool cfg)) (threads cfg d)"
      by (simp add: waiters_inv_def)
    then have "waiters_ok N (pool cfg) (Destructor D_Done tr)"
      unfolding list_all_iff using mem by (rule bspec)
    then have a: "\<exists>ws ts. tr = [ASetShutdown, ALock] @ map ASignal ws @ [AClear ws, AUnlock]
                        @ map AJoin [0..<N] @ drained ts @ [APublicPop None]"
      by (simp add: shutdown_prefix_def)
    from join_inv_exec[OF ex] have "list_all (joined N (pool cfg)) (threads cfg d)"
      by (simp add: join_inv_def)
    then have "joined N (pool cfg) (Destructor D_Done tr)"
      unfolding list_all_iff using mem by (rule bspec)
    then have fin: "\<forall>i<N. finished (pool cfg) i" by simp
    have b: "queues (pool cfg) i = [] \<and> finished (pool cfg) i
           \<and> (\<exists>wtr. threads cfg i = [Worker W_Exit wtr])" if i: "i < N" for i
    proof -
      from fin i have fi: "finished (pool cfg) i" by simp
      from worker_inv_exec[OF ex] i have "worker_ok (pool cfg) i (threads cfg i)"
        by (simp add: worker_inv_def)
      with fi show ?thesis unfolding worker_ok_def by (cases "threads cfg i") auto
    qed
    from a b show ?thesis by blast
  qed
  show ?thesis
    apply (intro conjI)
    subgoal using 1 by blast
    subgoal using 2 by blast
    subgoal using 3 by blast
    subgoal using 4 by blast
    subgoal using 5 by blast
    subgoal using 6 by blast
    subgoal using 7 by blast
    subgoal using 8 by blast
    subgoal using 9 by blast
    subgoal using 10 by blast
    subgoal using 11 by blast
    done
qed

theorem c3_destructor_witness:
  "thread_of (exec 1 exiting) 1 = [Destructor D_SetShutdown []]
   \<and> \<not> shutdown (pool (the (exec 1 exiting)))
   \<and> waiters (pool (the (exec 1 exiting))) = [WorkerEvent 0]
   \<and> waiters_lock (pool (the (exec 1 exiting))) = None
   \<and> \<not> events (pool (the (exec 1 exiting))) (WorkerEvent 0)
   \<and> thread_of (exec 1 (exiting @ [(1, Go)])) 1 = [Destructor D_Lock [ASetShutdown]]
   \<and> shutdown (pool (the (exec 1 (exiting @ [(1, Go)]))))
   \<and> waiters_lock (pool (the (exec 1 (exiting @ [(1, Go)])))) = None
   \<and> thread_of (exec 1 (exiting @ [(1, Go), (1, Go)])) 1 = [Destructor (D_Signal 0) [ASetShutdown,
       ALock]]
   \<and> waiters_lock (pool (the (exec 1 (exiting @ [(1, Go), (1, Go)])))) = Some 1
   \<and> waiters (pool (the (exec 1 (exiting @ [(1, Go), (1, Go)])))) = [WorkerEvent 0]
   \<and> \<not> events (pool (the (exec 1 (exiting @ [(1, Go), (1, Go)])))) (WorkerEvent 0)
   \<and> thread_of (exec 1 (exiting @ [(1, Go), (1, Go), (1, Go)])) 1
       = [Destructor (D_Signal 1) [ASetShutdown, ALock, ASignal (WorkerEvent 0)]]
   \<and> waiters (pool (the (exec 1 (exiting @ [(1, Go), (1, Go), (1, Go)])))) = [WorkerEvent 0]
   \<and> events (pool (the (exec 1 (exiting @ [(1, Go), (1, Go), (1, Go)])))) (WorkerEvent 0)
   \<and> thread_of (exec 1 (exiting @ [(1, Go), (1, Go), (1, Go), (1, Go)])) 1
       = [Destructor D_Clear [ASetShutdown, ALock, ASignal (WorkerEvent 0)]]
   \<and> waiters (pool (the (exec 1 (exiting @ [(1, Go), (1, Go), (1, Go), (1, Go)]))))
       = [WorkerEvent 0]
   \<and> waiters_lock (pool (the (exec 1 (exiting @ [(1, Go), (1, Go), (1, Go), (1, Go)])))) = Some 1
   \<and> thread_of (exec 1 (exiting @ [(1, Go), (1, Go), (1, Go), (1, Go), (1, Go)])) 1
       = [Destructor D_Unlock [ASetShutdown, ALock, ASignal (WorkerEvent 0),
       AClear [WorkerEvent 0]]]
   \<and> waiters (pool (the (exec 1 (exiting @ [(1, Go), (1, Go), (1, Go), (1, Go), (1, Go)])))) = []
   \<and> waiters_lock (pool (the (exec 1 (exiting @ [(1, Go), (1, Go), (1, Go), (1, Go), (1, Go)]))))
       = Some 1
   \<and> thread_of (exec 1 (exiting @ [(1, Go), (1, Go), (1, Go), (1, Go), (1, Go), (1, Go)])) 1
       = [Destructor (D_Join 0) [ASetShutdown, ALock, ASignal (WorkerEvent 0),
       AClear [WorkerEvent 0], AUnlock]]
   \<and> waiters_lock (pool (the (exec 1 (exiting @ [(1, Go), (1, Go), (1, Go), (1, Go), (1, Go),
       (1, Go)])))) = None
   \<and> \<not> finished (pool (the (exec 1 (exiting @ [(1, Go), (1, Go), (1, Go), (1, Go), (1, Go),
       (1, Go)])))) 0
   \<and> step 1 (1, Go) (the (exec 1 (exiting @ [(1, Go), (1, Go), (1, Go), (1, Go), (1, Go),
       (1, Go)]))) = None
   \<and> waiters (pool (the (exec 1 (exiting @ [(1, Go), (1, Go), (1, Go)] @ [(2, Go)]))))
       = [WorkerEvent 0]
   \<and> public_queue (pool (the (exec 1 (exiting @ [(1, Go), (1, Go), (1, Go)] @ [(2, Go)])))) = [7]
   \<and> thread_of (exec 1 (exiting @ [(1, Go), (1, Go), (1, Go), (1, Go), (1, Go), (1, Go), (0, Go),
       (0, Go), (0, Go), (2, Go), (2, Go), (2, Go)])) 1 = [Destructor (D_Join 0) [ASetShutdown,
       ALock, ASignal (WorkerEvent 0), AClear [WorkerEvent 0], AUnlock]]
   \<and> finished (pool (the (exec 1 (exiting @ [(1, Go), (1, Go), (1, Go), (1, Go), (1, Go), (1, Go),
       (0, Go), (0, Go), (0, Go), (2, Go), (2, Go), (2, Go)])))) 0
   \<and> public_queue (pool (the (exec 1 (exiting @ [(1, Go), (1, Go), (1, Go), (1, Go), (1, Go),
       (1, Go), (0, Go), (0, Go), (0, Go), (2, Go), (2, Go), (2, Go)])))) = [7]
   \<and> thread_of (exec 1 (exiting @ [(1, Go), (1, Go), (1, Go), (1, Go), (1, Go), (1, Go), (0, Go),
       (0, Go), (0, Go), (2, Go), (2, Go), (2, Go), (1, Go), (1, Go)])) 1
       = [Destructor D_Drain ([ASetShutdown, ALock, ASignal (WorkerEvent 0),
       AClear [WorkerEvent 0], AUnlock] @ [AJoin 0])]
   \<and> public_queue (pool (the (exec 1 (exiting @ [(1, Go), (1, Go), (1, Go), (1, Go), (1, Go),
       (1, Go), (0, Go), (0, Go), (0, Go), (2, Go), (2, Go), (2, Go), (1, Go), (1, Go)])))) = [7]
   \<and> thread_of (exec 1 (exiting @ [(1, Go), (1, Go), (1, Go), (1, Go), (1, Go), (1, Go), (0, Go),
       (0, Go), (0, Go), (2, Go), (2, Go), (2, Go), (1, Go), (1, Go), (1, Go)])) 1 = [Run 7,
       Destructor D_Drain ([ASetShutdown, ALock, ASignal (WorkerEvent 0), AClear [WorkerEvent 0],
       AUnlock] @ [AJoin 0, APublicPop (Some 7), ARun 7])]
   \<and> public_queue (pool (the (exec 1 (exiting @ [(1, Go), (1, Go), (1, Go), (1, Go), (1, Go),
       (1, Go), (0, Go), (0, Go), (0, Go), (2, Go), (2, Go), (2, Go), (1, Go), (1, Go),
       (1, Go)])))) = []
   \<and> thread_of (exec 1 (exiting @ [(1, Go), (1, Go), (1, Go), (1, Go), (1, Go), (1, Go), (0, Go),
       (0, Go), (0, Go), (2, Go), (2, Go), (2, Go), (1, Go), (1, Go), (1, Go), (1, Return)])) 1
       = [Destructor D_Drain ([ASetShutdown, ALock, ASignal (WorkerEvent 0),
       AClear [WorkerEvent 0], AUnlock] @ [AJoin 0, APublicPop (Some 7), ARun 7])]
   \<and> public_queue (pool (the (exec 1 (exiting @ [(1, Go), (1, Go), (1, Go), (1, Go), (1, Go),
       (1, Go), (0, Go), (0, Go), (0, Go), (2, Go), (2, Go), (2, Go), (1, Go), (1, Go), (1, Go),
       (1, Return)])))) = []
   \<and> thread_of (exec 1 (exiting @ [(1, Go), (1, Go), (1, Go), (1, Go), (1, Go), (1, Go), (0, Go),
       (0, Go), (0, Go), (2, Go), (2, Go), (2, Go), (1, Go), (1, Go), (1, Go), (1, Return),
       (1, Go)])) 1 = [Destructor D_Done ([ASetShutdown, ALock, ASignal (WorkerEvent 0),
       AClear [WorkerEvent 0], AUnlock] @ [AJoin 0, APublicPop (Some 7), ARun 7]
       @ [APublicPop None])]
   \<and> public_queue (pool (the (exec 1 (exiting @ [(1, Go), (1, Go), (1, Go), (1, Go), (1, Go),
       (1, Go), (0, Go), (0, Go), (0, Go), (2, Go), (2, Go), (2, Go), (1, Go), (1, Go), (1, Go),
       (1, Return), (1, Go)])))) = []
   \<and> queues (pool (the (exec 1 (exiting @ [(1, Go), (1, Go), (1, Go), (1, Go), (1, Go), (1, Go),
       (0, Go), (0, Go), (0, Go), (2, Go), (2, Go), (2, Go), (1, Go), (1, Go), (1, Go),
       (1, Return), (1, Go)])))) 0 = []
   \<and> finished (pool (the (exec 1 (exiting @ [(1, Go), (1, Go), (1, Go), (1, Go), (1, Go), (1, Go),
       (0, Go), (0, Go), (0, Go), (2, Go), (2, Go), (2, Go), (1, Go), (1, Go), (1, Go),
       (1, Return), (1, Go)])))) 0
   \<and> thread_of (exec 1 (exiting @ [(1, Go), (1, Go), (1, Go), (1, Go), (1, Go), (1, Go), (0, Go),
       (0, Go), (0, Go), (2, Go), (2, Go), (2, Go), (1, Go), (1, Go), (1, Go), (1, Return),
       (1, Go)])) 0 = [Worker W_Exit [ALocalPop None, APublicPop None, AShutdown False, AReset,
       ARegister (WorkerEvent 0), AShutdown False, AWait, APublicPop None, AShutdown True]]"
proof -
  note t = c3_destructor
  have "exec 1 exiting \<noteq> None"
    by (simp add: exiting_def parked_def eval_defs)
  then obtain a0 where a0: "exec 1 exiting = Some a0" by auto
  have Ea0: "thread_of (exec 1 exiting) 1 = [Destructor D_SetShutdown []]"
    "\<not> shutdown (pool (the (exec 1 exiting)))"
    "waiters (pool (the (exec 1 exiting))) = [WorkerEvent 0]"
    "waiters_lock (pool (the (exec 1 exiting))) = None"
    "\<not> events (pool (the (exec 1 exiting))) (WorkerEvent 0)"
    "\<not> finished (pool (the (exec 1 exiting))) 0"
    "public_queue (pool (the (exec 1 exiting))) = []"
    by (simp_all add: exiting_def parked_def eval_defs)
  from Ea0 a0 have Ta0: "threads a0 1 = [Destructor D_SetShutdown []]"
    by (simp add: thread_of_def)
  from Ea0 a0 have Pa0: "\<not> shutdown (pool a0)" "waiters (pool a0)
      = [WorkerEvent 0]" "waiters_lock (pool a0)
      = None" "\<not> events (pool a0) (WorkerEvent 0)" "\<not> finished (pool a0) 0" "public_queue (pool a0)
      = []"
    by simp_all
  define a1 where "a1 = \<lparr>pool = (pool a0)\<lparr>shutdown := True\<rparr>,
      threads = (threads a0)(1 := [Destructor D_Lock [ASetShutdown]])\<rparr>"
  from t[OF a0, where d = 1 and tr = "[]" and stack = "[]" and c = Go,
      THEN conjunct1, rule_format] Ta0 Pa0
  have Sa1: "step 1 (1, Go) a0 = Some a1"
    by (simp add: a1_def)
  with a0 have a1: "exec 1 (exiting @ [(1, Go)]) = Some a1"
    using exec_step[of 1 "exiting" a0 "(1, Go)"] by simp
  have Ta1: "threads a1 1 = [Destructor D_Lock [ASetShutdown]]"
    by (simp add: a1_def)
  have Pa1: "shutdown (pool a1)" "waiters (pool a1) = [WorkerEvent 0]" "waiters_lock (pool a1)
      = None" "\<not> events (pool a1) (WorkerEvent 0)" "\<not> finished (pool a1) 0" "public_queue (pool a1)
      = []"
    using Pa0 by (simp_all add: a1_def)
  define a2 where "a2 = \<lparr>pool = (pool a1)\<lparr>waiters_lock := Some 1\<rparr>,
      threads = (threads a1)(1 := [Destructor (D_Signal 0) [ASetShutdown, ALock]])\<rparr>"
  from t[OF a1, where d = 1 and tr = "[ASetShutdown]" and stack = "[]" and c = Go,
      THEN conjunct2, THEN conjunct1, rule_format] Ta1 Pa1
  have Sa2: "step 1 (1, Go) a1 = Some a2"
    by (simp add: a2_def)
  with a1 have a2: "exec 1 (exiting @ [(1, Go), (1, Go)]) = Some a2"
    using exec_step[of 1 "exiting @ [(1, Go)]" a1 "(1, Go)"] by simp
  have Ta2: "threads a2 1 = [Destructor (D_Signal 0) [ASetShutdown, ALock]]"
    by (simp add: a2_def)
  have Pa2: "shutdown (pool a2)" "waiters (pool a2) = [WorkerEvent 0]" "waiters_lock (pool a2)
      = Some 1" "\<not> events (pool a2) (WorkerEvent 0)" "\<not> finished (pool a2) 0" "public_queue (pool a2)
      = []"
    using Pa1 by (simp_all add: a2_def)
  define a3 where "a3 = \<lparr>pool = (pool a2)\<lparr>events := (events (pool a2))(WorkerEvent 0 := True)\<rparr>,
      threads = (threads a2)(1 := [Destructor (D_Signal 1) [ASetShutdown, ALock,
          ASignal (WorkerEvent 0)]])\<rparr>"
  from t[OF a2, where d = 1 and k = 0 and tr = "[ASetShutdown, ALock]" and stack = "[]" and c
      = Go,
      THEN conjunct2, THEN conjunct2, THEN conjunct1, rule_format] Ta2 Pa2
  have Sa3: "step 1 (1, Go) a2 = Some a3"
    by (simp add: a3_def)
  with a2 have a3: "exec 1 (exiting @ [(1, Go), (1, Go), (1, Go)]) = Some a3"
    using exec_step[of 1 "exiting @ [(1, Go), (1, Go)]" a2 "(1, Go)"] by simp
  have Ta3: "threads a3 1 = [Destructor (D_Signal 1) [ASetShutdown, ALock,
      ASignal (WorkerEvent 0)]]"
    by (simp add: a3_def)
  have Pa3: "shutdown (pool a3)" "waiters (pool a3) = [WorkerEvent 0]" "waiters_lock (pool a3)
      = Some 1" "events (pool a3) (WorkerEvent 0)" "\<not> finished (pool a3) 0" "public_queue (pool a3)
      = []"
    using Pa2 by (simp_all add: a3_def)
  define a4 where "a4 = \<lparr>pool = pool a3,
      threads = (threads a3)(1 := [Destructor D_Clear [ASetShutdown, ALock,
          ASignal (WorkerEvent 0)]])\<rparr>"
  from t[OF a3, where d = 1 and k = 1 and tr = "[ASetShutdown, ALock, ASignal (WorkerEvent 0)]"
      and stack = "[]" and c = Go,
      THEN conjunct2, THEN conjunct2, THEN conjunct1, rule_format] Ta3 Pa3
  have Sa4: "step 1 (1, Go) a3 = Some a4"
    by (simp add: a4_def)
  with a3 have a4: "exec 1 (exiting @ [(1, Go), (1, Go), (1, Go), (1, Go)]) = Some a4"
    using exec_step[of 1 "exiting @ [(1, Go), (1, Go), (1, Go)]" a3 "(1, Go)"] by simp
  have Ta4: "threads a4 1 = [Destructor D_Clear [ASetShutdown, ALock, ASignal (WorkerEvent 0)]]"
    by (simp add: a4_def)
  have Pa4: "shutdown (pool a4)" "waiters (pool a4) = [WorkerEvent 0]" "waiters_lock (pool a4)
      = Some 1" "events (pool a4) (WorkerEvent 0)" "\<not> finished (pool a4) 0" "public_queue (pool a4)
      = []"
    using Pa3 by (simp_all add: a4_def)
  define a5 where "a5 = \<lparr>pool = (pool a4)\<lparr>waiters := []\<rparr>,
      threads = (threads a4)(1 := [Destructor D_Unlock [ASetShutdown, ALock,
          ASignal (WorkerEvent 0), AClear [WorkerEvent 0]]])\<rparr>"
  from t[OF a4, where d = 1 and tr = "[ASetShutdown, ALock, ASignal (WorkerEvent 0)]" and stack
      = "[]" and c = Go,
      THEN conjunct2, THEN conjunct2, THEN conjunct2, THEN conjunct1, rule_format] Ta4 Pa4
  have Sa5: "step 1 (1, Go) a4 = Some a5"
    by (simp add: a5_def)
  with a4 have a5: "exec 1 (exiting @ [(1, Go), (1, Go), (1, Go), (1, Go), (1, Go)]) = Some a5"
    using exec_step[of 1 "exiting @ [(1, Go), (1, Go), (1, Go), (1, Go)]" a4 "(1, Go)"] by simp
  have Ta5: "threads a5 1 = [Destructor D_Unlock [ASetShutdown, ALock, ASignal (WorkerEvent 0),
      AClear [WorkerEvent 0]]]"
    by (simp add: a5_def)
  have Pa5: "shutdown (pool a5)" "waiters (pool a5) = []" "waiters_lock (pool a5)
      = Some 1" "events (pool a5) (WorkerEvent 0)" "\<not> finished (pool a5) 0" "public_queue (pool a5)
      = []"
    using Pa4 by (simp_all add: a5_def)
  define a6 where "a6 = \<lparr>pool = (pool a5)\<lparr>waiters_lock := None\<rparr>,
      threads = (threads a5)(1 := [Destructor (D_Join 0) [ASetShutdown, ALock,
          ASignal (WorkerEvent 0), AClear [WorkerEvent 0], AUnlock]])\<rparr>"
  from t[OF a5, where d = 1 and tr = "[ASetShutdown, ALock, ASignal (WorkerEvent 0),
      AClear [WorkerEvent 0]]" and stack = "[]" and c = Go,
      THEN conjunct2, THEN conjunct2, THEN conjunct2, THEN conjunct2, THEN conjunct1,
          rule_format] Ta5 Pa5
  have Sa6: "step 1 (1, Go) a5 = Some a6"
    by (simp add: a6_def)
  with a5 have a6: "exec 1 (exiting @ [(1, Go), (1, Go), (1, Go), (1, Go), (1, Go), (1, Go)])
      = Some a6"
    using exec_step[of 1 "exiting @ [(1, Go), (1, Go), (1, Go), (1, Go),
        (1, Go)]" a5 "(1, Go)"] by simp
  have Ta6: "threads a6 1 = [Destructor (D_Join 0) [ASetShutdown, ALock, ASignal (WorkerEvent 0),
      AClear [WorkerEvent 0], AUnlock]]"
    by (simp add: a6_def)
  have Pa6: "shutdown (pool a6)" "waiters (pool a6) = []" "waiters_lock (pool a6)
      = None" "events (pool a6) (WorkerEvent 0)" "\<not> finished (pool a6) 0" "public_queue (pool a6)
      = []"
    using Pa5 by (simp_all add: a6_def)
  from t[OF a6, where d = 1 and i = 0 and tr = "[ASetShutdown, ALock, ASignal (WorkerEvent 0),
      AClear [WorkerEvent 0], AUnlock]" and stack = "[]" and c = Go,
      THEN conjunct2, THEN conjunct2, THEN conjunct2, THEN conjunct2, THEN conjunct2,
          THEN conjunct2, THEN conjunct1, rule_format] Ta6 Pa6
  have joining: "step 1 (1, Go) a6 = None" by simp
  have "exec 1 (exiting @ [(1, Go), (1, Go), (1, Go)] @ [(2, Go)]) \<noteq> None"
    by (simp add: exiting_def parked_def eval_defs)
  then obtain x where x: "exec 1 (exiting @ [(1, Go), (1, Go), (1, Go)] @ [(2, Go)])
      = Some x" by auto
  have Ex: "waiters (pool (the (exec 1 (exiting @ [(1, Go), (1, Go), (1, Go)] @ [(2, Go)]))))
      = [WorkerEvent 0]"
    "public_queue (pool (the (exec 1 (exiting @ [(1, Go), (1, Go), (1, Go)] @ [(2, Go)])))) = [7]"
    by (simp_all add: exiting_def parked_def eval_defs)
  from x a3 have Sx: "step 1 (2, Go) a3 = Some x"
    using exec_step[of 1 "exiting @ [(1, Go), (1, Go), (1, Go)]" a3 "(2, Go)"] by simp
  from t[OF a3, where d = 1 and pc = "D_Signal 1" and k = 1
        and tr = "[ASetShutdown, ALock, ASignal (WorkerEvent 0)]" and stack = "[]"
        and j = 2 and c = Go and cfg' = x,
      THEN conjunct2, THEN conjunct2, THEN conjunct2, THEN conjunct2, THEN conjunct2,
          THEN conjunct1, rule_format] Ta3 Sx
  have r6: "waiters (pool x) = waiters (pool a3)" by simp
  have "exec 1 (exiting @ [(1, Go), (1, Go), (1, Go), (1, Go), (1, Go), (1, Go), (0, Go), (0, Go),
      (0, Go), (2, Go), (2, Go), (2, Go)]) \<noteq> None"
    by (simp add: exiting_def parked_def eval_defs)
  then obtain b0 where b0: "exec 1 (exiting @ [(1, Go), (1, Go), (1, Go), (1, Go), (1, Go),
      (1, Go), (0, Go), (0, Go), (0, Go), (2, Go), (2, Go), (2, Go)]) = Some b0" by auto
  have Eb0: "thread_of (exec 1 (exiting @ [(1, Go), (1, Go), (1, Go), (1, Go), (1, Go), (1, Go),
      (0, Go), (0, Go), (0, Go), (2, Go), (2, Go), (2, Go)])) 1
      = [Destructor (D_Join 0) [ASetShutdown, ALock, ASignal (WorkerEvent 0),
      AClear [WorkerEvent 0], AUnlock]]"
    "finished (pool (the (exec 1 (exiting @ [(1, Go), (1, Go), (1, Go), (1, Go), (1, Go), (1, Go),
        (0, Go), (0, Go), (0, Go), (2, Go), (2, Go), (2, Go)])))) 0"
    "public_queue (pool (the (exec 1 (exiting @ [(1, Go), (1, Go), (1, Go), (1, Go), (1, Go),
        (1, Go), (0, Go), (0, Go), (0, Go), (2, Go), (2, Go), (2, Go)])))) = [7]"
    by (simp_all add: exiting_def parked_def eval_defs)
  from Eb0 b0 have Tb0: "threads b0 1 = [Destructor (D_Join 0) [ASetShutdown, ALock,
      ASignal (WorkerEvent 0), AClear [WorkerEvent 0], AUnlock]]"
    by (simp add: thread_of_def)
  from Eb0 b0 have Pb0: "finished (pool b0) 0" "public_queue (pool b0) = [7]"
    by simp_all
  define b1 where "b1 = \<lparr>pool = pool b0,
      threads = (threads b0)(1 := [Destructor (D_Join 1) ([ASetShutdown, ALock,
          ASignal (WorkerEvent 0), AClear [WorkerEvent 0], AUnlock] @ [AJoin 0])])\<rparr>"
  from t[OF b0, where d = 1 and i = 0 and tr = "[ASetShutdown, ALock, ASignal (WorkerEvent 0),
      AClear [WorkerEvent 0], AUnlock]" and stack = "[]" and c = Go,
      THEN conjunct2, THEN conjunct2, THEN conjunct2, THEN conjunct2, THEN conjunct2,
          THEN conjunct2, THEN conjunct1, rule_format] Tb0 Pb0
  have Sb1: "step 1 (1, Go) b0 = Some b1"
    by (simp add: b1_def)
  with b0 have b1: "exec 1 (exiting @ [(1, Go), (1, Go), (1, Go), (1, Go), (1, Go), (1, Go),
      (0, Go), (0, Go), (0, Go), (2, Go), (2, Go), (2, Go), (1, Go)]) = Some b1"
    using exec_step[of 1 "exiting @ [(1, Go), (1, Go), (1, Go), (1, Go), (1, Go), (1, Go),
        (0, Go), (0, Go), (0, Go), (2, Go), (2, Go), (2, Go)]" b0 "(1, Go)"] by simp
  have Tb1: "threads b1 1 = [Destructor (D_Join 1) ([ASetShutdown, ALock, ASignal (WorkerEvent 0),
      AClear [WorkerEvent 0], AUnlock] @ [AJoin 0])]"
    by (simp add: b1_def)
  have Pb1: "finished (pool b1) 0" "public_queue (pool b1) = [7]"
    using Pb0 by (simp_all add: b1_def)
  define b2 where "b2 = \<lparr>pool = pool b1,
      threads = (threads b1)(1 := [Destructor D_Drain ([ASetShutdown, ALock,
          ASignal (WorkerEvent 0), AClear [WorkerEvent 0], AUnlock] @ [AJoin 0])])\<rparr>"
  from t[OF b1, where d = 1 and i = 1 and tr = "[ASetShutdown, ALock, ASignal (WorkerEvent 0),
      AClear [WorkerEvent 0], AUnlock] @ [AJoin 0]" and stack = "[]" and c = Go,
      THEN conjunct2, THEN conjunct2, THEN conjunct2, THEN conjunct2, THEN conjunct2,
          THEN conjunct2, THEN conjunct1, rule_format] Tb1 Pb1
  have Sb2: "step 1 (1, Go) b1 = Some b2"
    by (simp add: b2_def)
  with b1 have b2: "exec 1 (exiting @ [(1, Go), (1, Go), (1, Go), (1, Go), (1, Go), (1, Go),
      (0, Go), (0, Go), (0, Go), (2, Go), (2, Go), (2, Go), (1, Go), (1, Go)]) = Some b2"
    using exec_step[of 1 "exiting @ [(1, Go), (1, Go), (1, Go), (1, Go), (1, Go), (1, Go),
        (0, Go), (0, Go), (0, Go), (2, Go), (2, Go), (2, Go), (1, Go)]" b1 "(1, Go)"] by simp
  have Tb2: "threads b2 1 = [Destructor D_Drain ([ASetShutdown, ALock, ASignal (WorkerEvent 0),
      AClear [WorkerEvent 0], AUnlock] @ [AJoin 0])]"
    by (simp add: b2_def)
  have Pb2: "finished (pool b2) 0" "public_queue (pool b2) = [7]"
    using Pb1 by (simp_all add: b2_def)
  define b3 where "b3 = \<lparr>pool = (pool b2)\<lparr>public_queue := []\<rparr>,
      threads = (threads b2)(1 := [Run 7, Destructor D_Drain ([ASetShutdown, ALock,
          ASignal (WorkerEvent 0), AClear [WorkerEvent 0], AUnlock] @ [AJoin 0,
          APublicPop (Some 7), ARun 7])])\<rparr>"
  from t[OF b2, where d = 1 and tr = "[ASetShutdown, ALock, ASignal (WorkerEvent 0),
      AClear [WorkerEvent 0], AUnlock] @ [AJoin 0]" and stack = "[]" and c = Go,
      THEN conjunct2, THEN conjunct2, THEN conjunct2, THEN conjunct2, THEN conjunct2,
          THEN conjunct2, THEN conjunct2, THEN conjunct2, THEN conjunct1, rule_format] Tb2 Pb2
  have Sb3: "step 1 (1, Go) b2 = Some b3"
    by (simp add: b3_def)
  with b2 have b3: "exec 1 (exiting @ [(1, Go), (1, Go), (1, Go), (1, Go), (1, Go), (1, Go),
      (0, Go), (0, Go), (0, Go), (2, Go), (2, Go), (2, Go), (1, Go), (1, Go), (1, Go)]) = Some b3"
    using exec_step[of 1 "exiting @ [(1, Go), (1, Go), (1, Go), (1, Go), (1, Go), (1, Go),
        (0, Go), (0, Go), (0, Go), (2, Go), (2, Go), (2, Go), (1, Go),
        (1, Go)]" b2 "(1, Go)"] by simp
  have Tb3: "threads b3 1 = [Run 7, Destructor D_Drain ([ASetShutdown, ALock,
      ASignal (WorkerEvent 0), AClear [WorkerEvent 0], AUnlock] @ [AJoin 0, APublicPop (Some 7),
      ARun 7])]"
    by (simp add: b3_def)
  have Pb3: "finished (pool b3) 0" "public_queue (pool b3) = []"
    using Pb2 by (simp_all add: b3_def)
  have "exec 1 (exiting @ [(1, Go), (1, Go), (1, Go), (1, Go), (1, Go), (1, Go), (0, Go), (0, Go),
      (0, Go), (2, Go), (2, Go), (2, Go), (1, Go), (1, Go), (1, Go), (1, Return)]) \<noteq> None"
    by (simp add: exiting_def parked_def eval_defs)
  then obtain c0 where c0: "exec 1 (exiting @ [(1, Go), (1, Go), (1, Go), (1, Go), (1, Go),
      (1, Go), (0, Go), (0, Go), (0, Go), (2, Go), (2, Go), (2, Go), (1, Go), (1, Go), (1, Go),
      (1, Return)]) = Some c0" by auto
  have Ec0: "thread_of (exec 1 (exiting @ [(1, Go), (1, Go), (1, Go), (1, Go), (1, Go), (1, Go),
      (0, Go), (0, Go), (0, Go), (2, Go), (2, Go), (2, Go), (1, Go), (1, Go), (1, Go),
      (1, Return)])) 1 = [Destructor D_Drain ([ASetShutdown, ALock, ASignal (WorkerEvent 0),
      AClear [WorkerEvent 0], AUnlock] @ [AJoin 0, APublicPop (Some 7), ARun 7])]"
    "finished (pool (the (exec 1 (exiting @ [(1, Go), (1, Go), (1, Go), (1, Go), (1, Go), (1, Go),
        (0, Go), (0, Go), (0, Go), (2, Go), (2, Go), (2, Go), (1, Go), (1, Go), (1, Go),
        (1, Return)])))) 0"
    "public_queue (pool (the (exec 1 (exiting @ [(1, Go), (1, Go), (1, Go), (1, Go), (1, Go),
        (1, Go), (0, Go), (0, Go), (0, Go), (2, Go), (2, Go), (2, Go), (1, Go), (1, Go), (1, Go),
        (1, Return)])))) = []"
    "queues (pool (the (exec 1 (exiting @ [(1, Go), (1, Go), (1, Go), (1, Go), (1, Go), (1, Go),
        (0, Go), (0, Go), (0, Go), (2, Go), (2, Go), (2, Go), (1, Go), (1, Go), (1, Go),
        (1, Return)])))) 0 = []"
    by (simp_all add: exiting_def parked_def eval_defs)
  from Ec0 c0 have Tc0: "threads c0 1 = [Destructor D_Drain ([ASetShutdown, ALock,
      ASignal (WorkerEvent 0), AClear [WorkerEvent 0], AUnlock] @ [AJoin 0, APublicPop (Some 7),
      ARun 7])]"
    by (simp add: thread_of_def)
  from Ec0 c0 have Pc0: "finished (pool c0) 0" "public_queue (pool c0) = []" "queues (pool c0) 0
      = []"
    by simp_all
  define c1 where "c1 = \<lparr>pool = pool c0,
      threads = (threads c0)(1 := [Destructor D_Done ([ASetShutdown, ALock,
          ASignal (WorkerEvent 0), AClear [WorkerEvent 0], AUnlock] @ [AJoin 0,
          APublicPop (Some 7), ARun 7] @ [APublicPop None])])\<rparr>"
  from t[OF c0, where d = 1 and tr = "[ASetShutdown, ALock, ASignal (WorkerEvent 0),
      AClear [WorkerEvent 0], AUnlock] @ [AJoin 0, APublicPop (Some 7), ARun 7]" and stack = "[]"
      and c = Go,
      THEN conjunct2, THEN conjunct2, THEN conjunct2, THEN conjunct2, THEN conjunct2,
          THEN conjunct2, THEN conjunct2, THEN conjunct2, THEN conjunct1, rule_format] Tc0 Pc0
  have Sc1: "step 1 (1, Go) c0 = Some c1"
    by (simp add: c1_def)
  with c0 have c1: "exec 1 (exiting @ [(1, Go), (1, Go), (1, Go), (1, Go), (1, Go), (1, Go),
      (0, Go), (0, Go), (0, Go), (2, Go), (2, Go), (2, Go), (1, Go), (1, Go), (1, Go),
      (1, Return), (1, Go)]) = Some c1"
    using exec_step[of 1 "exiting @ [(1, Go), (1, Go), (1, Go), (1, Go), (1, Go), (1, Go),
        (0, Go), (0, Go), (0, Go), (2, Go), (2, Go), (2, Go), (1, Go), (1, Go), (1, Go),
        (1, Return)]" c0 "(1, Go)"] by simp
  have Tc1: "threads c1 1 = [Destructor D_Done ([ASetShutdown, ALock, ASignal (WorkerEvent 0),
      AClear [WorkerEvent 0], AUnlock] @ [AJoin 0, APublicPop (Some 7), ARun 7]
      @ [APublicPop None])]"
    by (simp add: c1_def)
  have Pc1: "finished (pool c1) 0" "public_queue (pool c1) = []" "queues (pool c1) 0 = []"
    using Pc0 by (simp_all add: c1_def)
  from t[OF c0, where d = 1 and tr = "[ASetShutdown, ALock, ASignal (WorkerEvent 0),
      AClear [WorkerEvent 0], AUnlock] @ [AJoin 0, APublicPop (Some 7), ARun 7]" and stack = "[]"
      and c = Go and cfg' = c1
        and tr' = "[ASetShutdown, ALock, ASignal (WorkerEvent 0), AClear [WorkerEvent 0], AUnlock]
            @ [AJoin 0, APublicPop (Some 7), ARun 7] @ [APublicPop None]",
      THEN conjunct2, THEN conjunct2, THEN conjunct2, THEN conjunct2, THEN conjunct2,
          THEN conjunct2, THEN conjunct2, THEN conjunct2, THEN conjunct2, THEN conjunct1,
          rule_format] Tc0 Sc1 Tc1
  have r10: "public_queue (pool c1) = []" by simp
  from Tc1 have "Destructor D_Done ([ASetShutdown, ALock, ASignal (WorkerEvent 0),
      AClear [WorkerEvent 0], AUnlock] @ [AJoin 0, APublicPop (Some 7), ARun 7]
      @ [APublicPop None]) \<in> set (threads c1 1)" by simp
  from t[OF c1, where d = 1 and tr = "[ASetShutdown, ALock, ASignal (WorkerEvent 0),
      AClear [WorkerEvent 0], AUnlock] @ [AJoin 0, APublicPop (Some 7), ARun 7]
      @ [APublicPop None]",
      THEN conjunct2, THEN conjunct2, THEN conjunct2, THEN conjunct2, THEN conjunct2,
          THEN conjunct2, THEN conjunct2, THEN conjunct2, THEN conjunct2, THEN conjunct2,
          rule_format, OF this]
  have r11: "queues (pool c1) 0 = [] \<and> finished (pool c1) 0
      \<and> (\<exists>wtr. threads c1 0 = [Worker W_Exit wtr])" by simp
  from t[OF c1, where i = 0, THEN conjunct2, THEN conjunct2, THEN conjunct2, THEN conjunct2,
      THEN conjunct2, THEN conjunct2, THEN conjunct2, THEN conjunct1, rule_format] Pc1
  have r8: "\<exists>wtr. threads c1 0 = [Worker W_Exit wtr]" by simp
  have Wc: "thread_of (exec 1 (exiting @ [(1, Go), (1, Go), (1, Go), (1, Go), (1, Go), (1, Go),
      (0, Go), (0, Go), (0, Go), (2, Go), (2, Go), (2, Go), (1, Go), (1, Go), (1, Go),
      (1, Return), (1, Go)])) 0 = [Worker W_Exit [ALocalPop None, APublicPop None,
      AShutdown False, AReset, ARegister (WorkerEvent 0), AShutdown False, AWait, APublicPop None,
      AShutdown True]]"
    by (simp add: exiting_def parked_def eval_defs)
  from a0 a1 a2 a3 a4 a5 a6 b0 b1 b2 b3 c0 c1 x
    Ta0 Pa0 Ta1 Pa1 Ta2 Pa2 Ta3 Pa3 Ta4 Pa4 Ta5 Pa5 Ta6 Pa6 joining Tb0 Pb0 Tb1 Pb1 Tb2 Pb2 Tb3 Pb3 Tc0 Pc0 Tc1 Pc1
    Ex r6 r10 r11 r8 Wc
  show ?thesis by (simp add: thread_of_def)
qed

section \<open>A destructor that does not return\<close>

lemma quiet_step:
  assumes "frame_step 1 tid c s f = Some (s', fs)" and "2 \<le> tid" and "quiet f"
    and "shutdown s" and "\<not> events s (WorkerEvent 0)"
    and "\<forall>t. t \<noteq> 9 \<longrightarrow> WorkerEvent 0 \<notin> set (conts s t)"
    and "c \<noteq> CallInline 9" and "c \<noteq> CallSchedule 9"
  shows "shutdown s' \<and> \<not> events s' (WorkerEvent 0) \<and> finished s' = finished s
       \<and> (\<forall>t. t \<noteq> 9 \<longrightarrow> WorkerEvent 0 \<notin> set (conts s' t)) \<and> list_all quiet fs"
proof (cases f)
  case (Worker pc tr)
  with assms show ?thesis by simp
next
  case (WaitHandler pc T added tr)
  with assms show ?thesis by (simp add: frame_step_def thread_id_def)
next
  case (Schedule pc t tr)
  with assms show ?thesis
    by (cases pc) (auto simp: frame_step_def prim_defs split: step_splits)
next
  case (Generic pc T tr)
  with assms show ?thesis
    by (cases pc) (auto simp: frame_step_def prim_defs split: step_splits)
next
  case (Destructor pc tr)
  with assms show ?thesis by simp
next
  case (Run t)
  with assms show ?thesis
    by (cases c) (auto simp: frame_step_def prim_defs split: if_splits wait_handler.splits)
next
  case User
  with assms show ?thesis
    by (cases c) (auto simp: frame_step_def prim_defs split: if_splits wait_handler.splits)
next
  case (Custom T)
  with assms show ?thesis
    by (cases c) (auto simp: frame_step_def prim_defs split: if_splits wait_handler.splits)
qed

lemma blocked_inv_step:
  assumes inv: "blocked_inv cfg" and st: "step 1 (tid, c) cfg = Some cfg'"
    and c: "c \<noteq> CallInline 9" "c \<noteq> CallSchedule 9"
  shows "blocked_inv cfg'"
proof -
  from st obtain f stack s' fs where
    th: "threads cfg tid = f # stack" and fs: "frame_step 1 tid c (pool cfg) f = Some (s', fs)"
    and cfg': "cfg' = \<lparr>pool = s', threads = (threads cfg)(tid := fs @ stack)\<rparr>"
    by (rule stepE)
  from inv have w: "\<not> events (pool cfg) (WorkerEvent 0)" and nf: "\<not> finished (pool cfg) 0"
    and d: "\<exists>tr. threads cfg 1 = [Destructor (D_Join 0) tr]"
    and h: "\<exists>T added tr st. threads cfg 0 = WaitHandler H_Wait T added tr # st"
    and q: "\<forall>j. 2 \<le> j \<longrightarrow> list_all quiet (threads cfg j)"
    by (simp_all add: blocked_inv_def)
  have "tid \<noteq> 0"
  proof
    assume "tid = 0"
    with h th fs w show False
      by (auto simp: frame_step_def thread_id_def event_wait_def)
  qed
  moreover have "tid \<noteq> 1"
  proof
    assume "tid = 1"
    with d th fs nf show False by (auto simp: frame_step_def)
  qed
  ultimately have t2: "2 \<le> tid" by simp
  with q th have qf: "quiet f" and qs: "list_all quiet stack" by auto
  from inv have "shutdown (pool cfg)" "\<not> events (pool cfg) (WorkerEvent 0)"
    "\<forall>t. t \<noteq> 9 \<longrightarrow> WorkerEvent 0 \<notin> set (conts (pool cfg) t)"
    by (simp_all add: blocked_inv_def)
  from quiet_step[OF fs t2 qf this c]
  have s': "shutdown s'" "\<not> events s' (WorkerEvent 0)" "finished s' = finished (pool cfg)"
    "\<forall>t. t \<noteq> 9 \<longrightarrow> WorkerEvent 0 \<notin> set (conts s' t)" and qfs: "list_all quiet fs"
    by simp_all
  from t2 cfg' d h have "\<exists>tr. threads cfg' 1 = [Destructor (D_Join 0) tr]"
    "\<exists>T added tr st. threads cfg' 0 = WaitHandler H_Wait T added tr # st" by simp_all
  moreover from q qfs qs cfg' have "\<forall>j. 2 \<le> j \<longrightarrow> list_all quiet (threads cfg' j)" by simp
  ultimately show ?thesis using s' nf cfg' by (simp add: blocked_inv_def)
qed

lemma blocked_inv_run:
  assumes "run_steps 1 sch cfg = Some cfg'" and "blocked_inv cfg" and "away_from 9 sch"
  shows "blocked_inv cfg'"
  using assms
proof (induction sch arbitrary: cfg)
  case Nil
  then show ?case by simp
next
  case (Cons a sch)
  obtain tid c where a: "a = (tid, c)" by (cases a)
  from Cons.prems(3) a have c: "c \<noteq> CallInline 9" "c \<noteq> CallSchedule 9" and r: "away_from 9 sch"
    by (simp_all add: away_from_def)
  from Cons.prems(1) a obtain cfg1 where s1: "step 1 (tid, c) cfg = Some cfg1"
    and r1: "run_steps 1 sch cfg1 = Some cfg'" by (auto split: option.splits)
  from blocked_inv_step[OF Cons.prems(2) s1 c] have "blocked_inv cfg1" .
  from Cons.IH[OF r1 this r] show ?case .
qed

text \<open>
  In the run \<open>nested_shutdown\<close> the destructor has signalled the waiters and is at
  \<open>join(0)\<close>; the worker is inside \<open>wait()\<close> of its nested wait for task 9, and
  neither thread can take a step.
\<close>

lemma join_blocked:
  "thread_of (exec 1 nested_shutdown) 1 =
     [Destructor (D_Join 0)
        [ASetShutdown, ALock, ASignal (WorkerEvent 0), AClear [WorkerEvent 0], AUnlock]]
   \<and> thread_of (exec 1 nested_shutdown) 0 =
     [WaitHandler H_Wait 9 True
        [AReady False, ALocalPop None, APublicPop None, AReset, AFence, AReady False, AOnFinish 9,
         ARegister (WorkerEvent 0), AWait, ARemove (WorkerEvent 0), AReady False, APublicPop None,
         AReset, AFence, AReady False, ARegister (WorkerEvent 0)],
      Run 5, Worker W_LocalPop [ALocalPop None, APublicPop (Some 5), ARun 5]]
   \<and> shutdown (pool (the (exec 1 nested_shutdown)))
   \<and> \<not> events (pool (the (exec 1 nested_shutdown))) (WorkerEvent 0)
   \<and> step 1 (1, Go) (the (exec 1 nested_shutdown)) = None
   \<and> step 1 (0, Go) (the (exec 1 nested_shutdown)) = None"
  by (simp add: nested_shutdown_def eval_defs)

lemma blocked_inv_reached: "blocked_inv (the (exec 1 nested_shutdown))"
  by (simp add: blocked_inv_def nested_shutdown_def eval_defs) blast

text \<open>
  From there on, as long as no thread submits or runs task 9, the destructor stays at
  \<open>join(0)\<close> and cannot take a step: every later call of \<open>schedule\<close> runs its task
  inline and signals nobody.
\<close>

lemma join_blocked_for_ever:
  assumes "run_steps 1 sch (the (exec 1 nested_shutdown)) = Some cfg" and "away_from 9 sch"
  shows "(\<exists>tr. threads cfg 1 = [Destructor (D_Join 0) tr]) \<and> step 1 (1, c) cfg = None"
proof -
  from blocked_inv_run[OF assms(1) blocked_inv_reached assms(2)] have i: "blocked_inv cfg" .
  then obtain tr where d: "threads cfg 1 = [Destructor (D_Join 0) tr]"
    and nf: "\<not> finished (pool cfg) 0" by (auto simp: blocked_inv_def)
  then have "step 1 (1, c) cfg = None" by (simp add: step_def frame_step_def)
  with d show ?thesis by simp
qed

section \<open>Submission to the pool\<close>

lemma sched_inv_step:
  "sched_inv N tid f \<Longrightarrow> frame_step N tid c s f = Some (s', fs) \<Longrightarrow> list_all (sched_inv N tid) fs"
proof (cases f)
  case (Worker pc tr)
  assume "frame_step N tid c s f = Some (s', fs)"
  with Worker show ?thesis
    by (cases pc) (auto simp: frame_step_def split: step_splits choice.splits)
next
  case (WaitHandler pc T added tr)
  assume "frame_step N tid c s f = Some (s', fs)"
  with WaitHandler show ?thesis
    by (cases pc) (auto simp: frame_step_def split: step_splits choice.splits)
next
  case (Schedule pc t tr)
  assume "sched_inv N tid f" "frame_step N tid c s f = Some (s', fs)"
  with Schedule show ?thesis
    by (cases pc)
      (auto simp: frame_step_def push_action_def inline_trace_def no_waiter_trace_def
        recheck_trace_def wake_trace_def split: step_splits)
next
  case (Generic pc T tr)
  assume "frame_step N tid c s f = Some (s', fs)"
  with Generic show ?thesis
    by (cases pc) (auto simp: frame_step_def split: step_splits)
next
  case (Destructor pc tr)
  assume "frame_step N tid c s f = Some (s', fs)"
  with Destructor show ?thesis
    by (cases pc) (auto simp: frame_step_def split: step_splits)
next
  case (Run t)
  assume "frame_step N tid c s f = Some (s', fs)"
  with Run show ?thesis
    by (cases c) (auto simp: frame_step_def wait_for_task_def inline_schedule_def split: wait_handler.splits)
next
  case User
  assume "frame_step N tid c s f = Some (s', fs)"
  with User show ?thesis
    by (cases c) (auto simp: frame_step_def wait_for_task_def inline_schedule_def split: if_splits wait_handler.splits)
next
  case (Custom T)
  assume "frame_step N tid c s f = Some (s', fs)"
  with Custom show ?thesis
    by (cases c) (auto simp: frame_step_def wait_for_task_def inline_schedule_def split: if_splits wait_handler.splits)
qed

lemma sched_inv_exec:
  assumes "exec N sched = Some cfg" and "f \<in> set (threads cfg tid)"
  shows "sched_inv N tid f"
  using sched_inv_step _ _ assms by (rule frames_ok_exec) simp_all





text \<open>
  Claim C7: when \<open>shutdown\<close> is set at the call of \<open>schedule(t)\<close>, the task runs on the
  calling thread, inside the call, and the call then returns; nothing is put on a
  queue: the step leaves the pool as it was, and the trace of the call is the read of
  \<open>shutdown\<close> and the run of \<open>t\<close>.
\<close>

theorem c7_schedule_after_shutdown:
  assumes "threads cfg tid = Schedule S_Entry t [] # stack" and "shutdown (pool cfg)"
  shows "step N (tid, c) cfg =
           Some \<lparr>pool = pool cfg,
                 threads = (threads cfg)(tid := Run t # Schedule S_Return t (inline_trace t) # stack)\<rparr>
       \<and> (threads later tid = Schedule S_Return t (inline_trace t) # stack \<longrightarrow>
            step N (tid, c') later = Some \<lparr>pool = pool later, threads = (threads later)(tid := stack)\<rparr>)"
  using assms by (simp add: step_def frame_step_def inline_trace_def)

theorem c7_schedule_after_shutdown_witness:
  "exec 1 late_submit \<noteq> None
   \<and> thread_of (exec 1 late_submit) 2 = [Schedule S_Entry 7 [], User]
   \<and> shutdown (pool (the (exec 1 late_submit)))
   \<and> step 1 (2, Go) (the (exec 1 late_submit)) =
        Some \<lparr>pool = pool (the (exec 1 late_submit)),
              threads = (threads (the (exec 1 late_submit)))
                (2 := [Run 7, Schedule S_Return 7 (inline_trace 7), User])\<rparr>
   \<and> thread_of (exec 1 (late_submit @ [(2, Go), (2, Return)])) 2 = [Schedule S_Return 7 (inline_trace 7), User]
   \<and> step 1 (2, Go) (the (exec 1 (late_submit @ [(2, Go), (2, Return)]))) =
        Some \<lparr>pool = pool (the (exec 1 (late_submit @ [(2, Go), (2, Return)]))),
              threads = (threads (the (exec 1 (late_submit @ [(2, Go), (2, Return)])))) (2 := [User])\<rparr>"
proof -
  have e: "exec 1 late_submit \<noteq> None"
    by (simp add: late_submit_def eval_defs)
  then obtain c1 where c1: "exec 1 late_submit = Some c1" by auto
  have t1: "thread_of (exec 1 late_submit) 2 = [Schedule S_Entry 7 [], User]"
    and s1: "shutdown (pool (the (exec 1 late_submit)))"
    by (simp_all add: late_submit_def eval_defs)
  have e2: "exec 1 (late_submit @ [(2, Go), (2, Return)]) \<noteq> None"
    by (simp add: late_submit_def eval_defs)
  then obtain c2 where c2: "exec 1 (late_submit @ [(2, Go), (2, Return)]) = Some c2" by auto
  have t2: "thread_of (exec 1 (late_submit @ [(2, Go), (2, Return)])) 2 = [Schedule S_Return 7 (inline_trace 7), User]"
    by (simp add: late_submit_def eval_defs inline_trace_def)
  from c7_schedule_after_shutdown[where cfg = c1 and tid = 2 and t = 7 and stack = "[User]"
      and later = c2 and N = 1 and c = Go and c' = Go] e t1 s1 c1 c2 t2
  show ?thesis by (simp add: thread_of_def)
qed

text \<open>
  Claim C9: a call of \<open>schedule(t)\<close> that takes the inline path after shutdown changes
  nothing in the pool and looks at neither the deques, the public queue nor the waiter
  list: the only actions of such a call, in whatever run, are the read of \<open>shutdown\<close>
  and the run of \<open>t\<close>, and each of its two steps leaves the pool as it was.
\<close>

theorem c9_inline_frame:
  assumes ex: "exec N sched = Some cfg"
  shows "(Schedule pc t tr \<in> set (threads cfg tid) \<and> AShutdown True \<in> set tr \<longrightarrow>
            pc = S_Return \<and> tr = [AShutdown True, ARun t])
       \<and> (threads cfg tid = Schedule pc' t' tr' # stack
            \<and> (pc' = S_Entry \<and> shutdown (pool cfg) \<or> pc' = S_Return)
            \<and> step N (tid, c) cfg = Some cfg' \<longrightarrow> pool cfg' = pool cfg)"
proof (rule conjI; rule impI)
  assume "Schedule pc t tr \<in> set (threads cfg tid) \<and> AShutdown True \<in> set tr"
  then have m: "Schedule pc t tr \<in> set (threads cfg tid)" and a: "AShutdown True \<in> set tr"
    by simp_all
  from sched_inv_exec[OF ex m] a
  show "pc = S_Return \<and> tr = [AShutdown True, ARun t]"
    by (cases pc)
      (auto simp: inline_trace_def no_waiter_trace_def recheck_trace_def wake_trace_def
        push_action_def split: option.splits)
next
  assume "threads cfg tid = Schedule pc' t' tr' # stack
            \<and> (pc' = S_Entry \<and> shutdown (pool cfg) \<or> pc' = S_Return)
            \<and> step N (tid, c) cfg = Some cfg'"
  then show "pool cfg' = pool cfg"
    by (auto simp: step_def frame_step_def)
qed

theorem c9_inline_frame_witness:
  "exec 1 (late_submit @ [(2, Go)]) \<noteq> None
   \<and> Schedule S_Return 7 [AShutdown True, ARun 7] \<in> set (thread_of (exec 1 (late_submit @ [(2, Go)])) 2)
   \<and> AShutdown True \<in> set [AShutdown True, ARun 7]
   \<and> exec 1 late_submit \<noteq> None
   \<and> thread_of (exec 1 late_submit) 2 = [Schedule S_Entry 7 [], User]
   \<and> shutdown (pool (the (exec 1 late_submit)))
   \<and> step 1 (2, Go) (the (exec 1 late_submit)) = Some (the (exec 1 (late_submit @ [(2, Go)])))
   \<and> pool (the (exec 1 (late_submit @ [(2, Go)]))) = pool (the (exec 1 late_submit))"
proof -
  have e: "exec 1 late_submit \<noteq> None"
    by (simp add: late_submit_def eval_defs)
  then obtain c1 where c1: "exec 1 late_submit = Some c1" by auto
  have t1: "thread_of (exec 1 late_submit) 2 = [Schedule S_Entry 7 [], User]"
    and s1: "shutdown (pool (the (exec 1 late_submit)))"
    by (simp_all add: late_submit_def eval_defs)
  have e2: "exec 1 (late_submit @ [(2, Go)]) \<noteq> None"
    by (simp add: late_submit_def eval_defs)
  then obtain c2 where c2: "exec 1 (late_submit @ [(2, Go)]) = Some c2" by auto
  have t2: "thread_of (exec 1 (late_submit @ [(2, Go)])) 2 = [Run 7, Schedule S_Return 7 [AShutdown True, ARun 7], User]"
    by (simp add: late_submit_def eval_defs)
  from c1 c2 have st: "step 1 (2, Go) c1 = Some c2"
    by (auto simp: exec_def run_steps_append split: option.splits)
  from t2 c2 have m: "Schedule S_Return 7 [AShutdown True, ARun 7] \<in> set (threads c2 2)"
    by (simp add: thread_of_def)
  note a = c9_inline_frame[OF c2, where pc = S_Return and t = 7
      and tr = "[AShutdown True, ARun 7]" and tid = 2, THEN conjunct1]
  note b = c9_inline_frame[OF c1, where tid = 2 and pc' = S_Entry and t' = 7 and tr' = "[]"
      and stack = "[User]" and c = Go and cfg' = c2, THEN conjunct2]
  from t1 s1 c1 st b have p: "pool c2 = pool c1" by (simp add: thread_of_def)
  from a m p st e e2 t1 t2 s1 c1 c2
  show ?thesis by (simp add: thread_of_def)
qed

section \<open>Who removes an entry of the waiter list\<close>

lemma remove_inv_step:
  "remove_inv tid f \<Longrightarrow> frame_step N tid c s f = Some (s', fs) \<Longrightarrow> list_all (remove_inv tid) fs"
proof (cases f)
  case (Worker pc tr)
  assume "remove_inv tid f" "frame_step N tid c s f = Some (s', fs)"
  with Worker show ?thesis
    by (cases pc) (auto simp: frame_step_def split: step_splits choice.splits dest!: steal_task_actions)
next
  case (WaitHandler pc T added tr)
  assume "remove_inv tid f" "frame_step N tid c s f = Some (s', fs)"
  with WaitHandler show ?thesis
    by (cases pc)
      (auto simp: frame_step_def thread_id_def split: step_splits choice.splits dest!: steal_task_actions)
next
  case (Schedule pc t tr)
  assume "frame_step N tid c s f = Some (s', fs)"
  with Schedule show ?thesis
    by (cases pc) (auto simp: frame_step_def split: step_splits)
next
  case (Generic pc T tr)
  assume "frame_step N tid c s f = Some (s', fs)"
  with Generic show ?thesis
    by (cases pc) (auto simp: frame_step_def split: step_splits)
next
  case (Destructor pc tr)
  assume "frame_step N tid c s f = Some (s', fs)"
  with Destructor show ?thesis
    by (cases pc) (auto simp: frame_step_def split: step_splits)
next
  case (Run t)
  assume "frame_step N tid c s f = Some (s', fs)"
  with Run show ?thesis
    by (cases c) (auto simp: frame_step_def wait_for_task_def inline_schedule_def split: wait_handler.splits)
next
  case User
  assume "frame_step N tid c s f = Some (s', fs)"
  with User show ?thesis
    by (cases c) (auto simp: frame_step_def wait_for_task_def inline_schedule_def split: if_splits wait_handler.splits)
next
  case (Custom T)
  assume "frame_step N tid c s f = Some (s', fs)"
  with Custom show ?thesis
    by (cases c) (auto simp: frame_step_def wait_for_task_def inline_schedule_def split: if_splits wait_handler.splits)
qed

lemma count_list_removeAll_other: "e \<noteq> e' \<Longrightarrow> count_list (removeAll e' xs) e = count_list xs e"
  by (induction xs) auto

lemma count_list_butlast: "count_list (butlast xs) e < count_list xs e \<Longrightarrow> e = last xs"
  by (induction xs) (auto split: if_splits)

text \<open>The steps that take an entry for event \<open>e\<close> out of the waiter list.\<close>

lemma removal_step:
  assumes "frame_step N j c s f = Some (s', fs)"
    and "count_list (waiters s') e < count_list (waiters s) e"
  shows "(\<exists>t tr. f = Schedule S_Pop t tr \<and> e = last (waiters s))
       \<or> (\<exists>tr. f = Destructor D_Clear tr)
       \<or> (\<exists>T added tr. f = WaitHandler H_Remove T added tr \<and> e = WorkerEvent j)"
proof (cases f)
  case (Worker pc tr)
  with assms show ?thesis
    by (cases pc) (auto simp: frame_step_def prim_defs split: step_splits choice.splits dest!: steal_task_pool)
next
  case (WaitHandler pc T added tr)
  with assms show ?thesis
    by (cases pc; cases "e = WorkerEvent j")
      (auto simp: frame_step_def prim_defs count_list_removeAll_other split: step_splits choice.splits dest!: steal_task_pool)
next
  case (Schedule pc t tr)
  with assms show ?thesis
    by (cases pc) (auto simp: frame_step_def prim_defs split: step_splits dest: count_list_butlast)
next
  case (Generic pc T tr)
  with assms show ?thesis
    by (cases pc) (auto simp: frame_step_def prim_defs split: step_splits)
next
  case (Destructor pc tr)
  with assms show ?thesis
    by (cases pc) (auto simp: frame_step_def prim_defs split: step_splits)
next
  case (Run t)
  with assms show ?thesis
    by (cases c) (auto simp: frame_step_def prim_defs split: if_splits wait_handler.splits)
next
  case User
  with assms show ?thesis
    by (cases c) (auto simp: frame_step_def prim_defs split: if_splits wait_handler.splits)
next
  case (Custom T)
  with assms show ?thesis
    by (cases c) (auto simp: frame_step_def prim_defs split: if_splits wait_handler.splits)
qed

text \<open>
  Claim C8, as stated: an entry that a park of the main loop has put on the waiter list
  leaves it only by the \<open>pop_back\<close> of a \<open>schedule\<close> or by the \<open>clear\<close> of the
  destructor. In the run \<open>stale_entry\<close> worker 0 parks in its main loop and is woken by
  a signal that thread 2 owed it from an earlier \<open>pop_back\<close>, so that the entry of this
  park stays on the list; the worker then runs task 8, which waits for task 10. In
  \<open>stale_entry @ nested_park\<close> the nested wait has registered a second entry and has
  been woken by the completion of task 10; no thread is inside \<open>schedule\<close> or the
  destructor. The next step of the worker is \<open>remove_waiter\<close>, and it takes both
  entries off the list.
\<close>

theorem c8_counterexample:
  "thread_of (exec 1 stale_entry) 0 =
     [Run 8, Worker W_LocalPop
        [ALocalPop None, APublicPop (Some 5), ARun 5, ALocalPop None, APublicPop (Some 6), ARun 6,
         ALocalPop None, APublicPop None, AShutdown False, AReset, ARegister (WorkerEvent 0),
         AShutdown False, AWait, APublicPop (Some 8), ARun 8]]
   \<and> waiters (pool (the (exec 1 stale_entry))) = [WorkerEvent 0]
   \<and> thread_of (exec 1 (stale_entry @ nested_park)) 0 =
     [WaitHandler H_Remove 10 True
        [AReady False, ALocalPop None, APublicPop None, AReset, AFence, AReady False, AOnFinish 10,
         ARegister (WorkerEvent 0), AWait],
      Run 8, Worker W_LocalPop
        [ALocalPop None, APublicPop (Some 5), ARun 5, ALocalPop None, APublicPop (Some 6), ARun 6,
         ALocalPop None, APublicPop None, AShutdown False, AReset, ARegister (WorkerEvent 0),
         AShutdown False, AWait, APublicPop (Some 8), ARun 8]]
   \<and> thread_of (exec 1 (stale_entry @ nested_park)) 1 = [User]
   \<and> thread_of (exec 1 (stale_entry @ nested_park)) 2 = [User]
   \<and> waiters (pool (the (exec 1 (stale_entry @ nested_park)))) = [WorkerEvent 0, WorkerEvent 0]
   \<and> waiters (pool (the (exec 1 (stale_entry @ nested_park @ [(0, Go)])))) = []"
  by (simp add: stale_entry_def nested_park_def inline_schedule_def eval_defs)

text \<open>
  Claim C8, amended. A worker registers at the back of the list, in its main loop and in
  the nested wait handler alike. \<open>schedule\<close> wakes the waiter at the back of the list:
  it removes that entry while it holds \<open>waiters_lock\<close>, releases the lock, and then
  signals the event. The main loop of a worker never calls \<open>remove_waiter\<close>: after
  \<open>wait()\<close> it goes on to the public queue, and no step of the main loop takes an entry
  off the list. The nested wait handler calls \<open>remove_waiter\<close> after every \<open>wait()\<close>,
  and that call takes every entry of the worker's event off the list, those of its main
  loop included. So an entry of the event of a worker leaves the list by the \<open>pop_back\<close>
  of a \<open>schedule\<close>, by the \<open>clear\<close> of the destructor, or by the \<open>remove_waiter\<close> of a
  nested wait of that worker; while the worker is in its main loop, by the first two
  only.
\<close>

theorem c8_waiter_removal:
  assumes ex: "exec N sched = Some cfg"
  shows "(threads cfg i = Worker W_Register tr # stack \<longrightarrow>
            step N (i, c) cfg =
              (if waiters_lock (pool cfg) = None
               then Some \<lparr>pool = (pool cfg)\<lparr>waiters := waiters (pool cfg) @ [WorkerEvent i],
                                           waiters_lock := None\<rparr>,
                          threads = (threads cfg)
                            (i := Worker W_Shutdown2 (tr @ [ARegister (WorkerEvent i)]) # stack)\<rparr>
               else None))
       \<and> (i < N \<and> threads cfg i = WaitHandler H_Register T added tr # stack \<longrightarrow>
            step N (i, c) cfg =
              (if waiters_lock (pool cfg) = None
               then Some \<lparr>pool = (pool cfg)\<lparr>waiters := waiters (pool cfg) @ [WorkerEvent i],
                                           waiters_lock := None\<rparr>,
                          threads = (threads cfg)
                            (i := WaitHandler H_Wait T added (tr @ [ARegister (WorkerEvent i)]) # stack)\<rparr>
               else None))
       \<and> (threads cfg j = Schedule S_Pop t tr # stack \<longrightarrow>
            waiters_lock (pool cfg) = Some j \<and> waiters (pool cfg) \<noteq> []
            \<and> step N (j, c) cfg =
                Some \<lparr>pool = (pool cfg)\<lparr>waiters := butlast (waiters (pool cfg))\<rparr>,
                      threads = (threads cfg)(j := Schedule (S_Unlock (Some (last (waiters (pool cfg))))) t
                                   (tr @ [APopBack (last (waiters (pool cfg)))]) # stack)\<rparr>)
       \<and> (threads cfg j = Schedule (S_Unlock (Some e)) t tr # stack \<longrightarrow>
            waiters_lock (pool cfg) = Some j
            \<and> step N (j, c) cfg =
                Some \<lparr>pool = (pool cfg)\<lparr>waiters_lock := None\<rparr>,
                      threads = (threads cfg)(j := Schedule (S_Signal e) t (tr @ [AUnlock]) # stack)\<rparr>)
       \<and> (threads cfg j = Schedule (S_Signal e) t tr # stack \<longrightarrow>
            waiters_lock (pool cfg) \<noteq> Some j \<and> ends_with [APopBack e, AUnlock] tr
            \<and> step N (j, c) cfg =
                Some \<lparr>pool = (pool cfg)\<lparr>events := (events (pool cfg))(e := True)\<rparr>,
                      threads = (threads cfg)(j := Schedule S_Return t (tr @ [ASignal e]) # stack)\<rparr>)
       \<and> (threads cfg i = Worker W_Wait tr # stack \<longrightarrow>
            step N (i, c) cfg =
              (if events (pool cfg) (WorkerEvent i)
               then Some \<lparr>pool = (pool cfg)\<lparr>events := (events (pool cfg))(WorkerEvent i := False)\<rparr>,
                          threads = (threads cfg)(i := Worker W_PublicPop (tr @ [AWait]) # stack)\<rparr>
               else None))
       \<and> (threads cfg i = Worker pc tr # stack \<and> step N (i, c) cfg = Some cfg' \<longrightarrow>
            waiters (pool cfg') = waiters (pool cfg)
            \<or> pc = W_Register \<and> waiters (pool cfg') = waiters (pool cfg) @ [WorkerEvent i])
       \<and> (Worker pc tr \<in> set (threads cfg i) \<longrightarrow> list_all (\<lambda>a. \<not> is_remove a) tr)
       \<and> (i < N \<and> threads cfg i = WaitHandler H_Wait T added tr # stack \<longrightarrow>
            step N (i, c) cfg =
              (if events (pool cfg) (WorkerEvent i)
               then Some \<lparr>pool = (pool cfg)\<lparr>events := (events (pool cfg))(WorkerEvent i := False)\<rparr>,
                          threads = (threads cfg)(i := WaitHandler H_Remove T added (tr @ [AWait]) # stack)\<rparr>
               else None))
       \<and> (i < N \<and> threads cfg i = WaitHandler H_Remove T added tr # stack \<longrightarrow>
            step N (i, c) cfg =
              (if waiters_lock (pool cfg) = None
               then Some \<lparr>pool = (pool cfg)\<lparr>waiters := removeAll (WorkerEvent i) (waiters (pool cfg)),
                                           waiters_lock := None\<rparr>,
                          threads = (threads cfg)
                            (i := WaitHandler H_Ready3 T added (tr @ [ARemove (WorkerEvent i)]) # stack)\<rparr>
               else None))
       \<and> (WaitHandler hpc T added tr \<in> set (threads cfg i) \<longrightarrow>
            (tr = pre @ AWait # a # post \<longrightarrow> a = ARemove (WorkerEvent i))
            \<and> (tr = pre2 @ [AWait] \<longrightarrow> hpc = H_Remove))
       \<and> (step N (j, c) cfg = Some cfg'
            \<and> count_list (waiters (pool cfg')) e < count_list (waiters (pool cfg)) e \<longrightarrow>
            (\<exists>t' tr' st. threads cfg j = Schedule S_Pop t' tr' # st \<and> e = last (waiters (pool cfg)))
            \<or> (\<exists>tr' st. threads cfg j = Destructor D_Clear tr' # st)
            \<or> (\<exists>T' added' tr' st. threads cfg j = WaitHandler H_Remove T' added' tr' # st
                  \<and> e = WorkerEvent j))
       \<and> (step N (j, c) cfg = Some cfg' \<and> threads cfg i = [Worker pc tr]
            \<and> count_list (waiters (pool cfg')) (WorkerEvent i)
                < count_list (waiters (pool cfg)) (WorkerEvent i) \<longrightarrow>
            (\<exists>t' tr' st. threads cfg j = Schedule S_Pop t' tr' # st)
            \<or> (\<exists>tr' st. threads cfg j = Destructor D_Clear tr' # st))"
proof -
  have 1: "step N (i, c) cfg =
      (if waiters_lock (pool cfg) = None
       then Some \<lparr>pool = (pool cfg)\<lparr>waiters := waiters (pool cfg) @ [WorkerEvent i],
                                   waiters_lock := None\<rparr>,
                  threads = (threads cfg)
                    (i := Worker W_Shutdown2 (tr @ [ARegister (WorkerEvent i)]) # stack)\<rparr>
       else None)"
    if "threads cfg i = Worker W_Register tr # stack"
    using that by (simp add: step_def frame_step_def register_waiter_def spin_lock_def spin_unlock_def)
  have 2: "step N (i, c) cfg =
      (if waiters_lock (pool cfg) = None
       then Some \<lparr>pool = (pool cfg)\<lparr>waiters := waiters (pool cfg) @ [WorkerEvent i],
                                   waiters_lock := None\<rparr>,
                  threads = (threads cfg)
                    (i := WaitHandler H_Wait T added (tr @ [ARegister (WorkerEvent i)]) # stack)\<rparr>
       else None)"
    if "i < N" and "threads cfg i = WaitHandler H_Register T added tr # stack"
    using that
    by (simp add: step_def frame_step_def thread_id_def register_waiter_def spin_lock_def spin_unlock_def)
  have 3: "waiters_lock (pool cfg) = Some j \<and> waiters (pool cfg) \<noteq> []
      \<and> step N (j, c) cfg =
          Some \<lparr>pool = (pool cfg)\<lparr>waiters := butlast (waiters (pool cfg))\<rparr>,
                threads = (threads cfg)(j := Schedule (S_Unlock (Some (last (waiters (pool cfg))))) t
                             (tr @ [APopBack (last (waiters (pool cfg)))]) # stack)\<rparr>"
    if th: "threads cfg j = Schedule S_Pop t tr # stack"
    using top_lock[OF ex th] top_waiters_ok[OF ex th] th by (simp add: step_def frame_step_def)
  have 4: "waiters_lock (pool cfg) = Some j
      \<and> step N (j, c) cfg =
          Some \<lparr>pool = (pool cfg)\<lparr>waiters_lock := None\<rparr>,
                threads = (threads cfg)(j := Schedule (S_Signal e) t (tr @ [AUnlock]) # stack)\<rparr>"
    if th: "threads cfg j = Schedule (S_Unlock (Some e)) t tr # stack"
    using top_lock[OF ex th] th by (simp add: step_def frame_step_def spin_unlock_def)
  have 5: "waiters_lock (pool cfg) \<noteq> Some j \<and> ends_with [APopBack e, AUnlock] tr
      \<and> step N (j, c) cfg =
          Some \<lparr>pool = (pool cfg)\<lparr>events := (events (pool cfg))(e := True)\<rparr>,
                threads = (threads cfg)(j := Schedule S_Return t (tr @ [ASignal e]) # stack)\<rparr>"
    if th: "threads cfg j = Schedule (S_Signal e) t tr # stack"
  proof -
    from th have "Schedule (S_Signal e) t tr \<in> set (threads cfg j)" by simp
    from sched_inv_exec[OF ex this] have "ends_with [APopBack e, AUnlock] tr"
      by (simp add: ends_with_def)
    with top_lock[OF ex th] th show ?thesis
      by (simp add: step_def frame_step_def event_signal_def)
  qed
  have 6: "step N (i, c) cfg =
      (if events (pool cfg) (WorkerEvent i)
       then Some \<lparr>pool = (pool cfg)\<lparr>events := (events (pool cfg))(WorkerEvent i := False)\<rparr>,
                  threads = (threads cfg)(i := Worker W_PublicPop (tr @ [AWait]) # stack)\<rparr>
       else None)"
    if "threads cfg i = Worker W_Wait tr # stack"
    using that by (simp add: step_def frame_step_def event_wait_def)
  have 7: "waiters (pool cfg') = waiters (pool cfg)
      \<or> pc = W_Register \<and> waiters (pool cfg') = waiters (pool cfg) @ [WorkerEvent i]"
    if th: "threads cfg i = Worker pc tr # stack" and st: "step N (i, c) cfg = Some cfg'"
  proof -
    from st th obtain s' fs where fs: "worker_thread N i c (pool cfg) pc tr = Some (s', fs)"
      and cfg': "pool cfg' = s'"
      by (auto simp: step_def frame_step_def split: option.splits)
    from fs have "waiters s' = waiters (pool cfg)
        \<or> pc = W_Register \<and> waiters s' = waiters (pool cfg) @ [WorkerEvent i]"
      by (cases pc) (auto simp: prim_defs split: step_splits choice.splits dest!: steal_task_pool)
    with cfg' show ?thesis by simp
  qed
  have 8: "list_all (\<lambda>a. \<not> is_remove a) tr" if m: "Worker pc tr \<in> set (threads cfg i)"
  proof -
    have "remove_inv i (Worker pc tr)"
      using remove_inv_step _ _ ex m by (rule frames_ok_exec) simp_all
    then show ?thesis by simp
  qed
  have 9: "step N (i, c) cfg =
      (if events (pool cfg) (WorkerEvent i)
       then Some \<lparr>pool = (pool cfg)\<lparr>events := (events (pool cfg))(WorkerEvent i := False)\<rparr>,
                  threads = (threads cfg)(i := WaitHandler H_Remove T added (tr @ [AWait]) # stack)\<rparr>
       else None)"
    if "i < N" and "threads cfg i = WaitHandler H_Wait T added tr # stack"
    using that by (simp add: step_def frame_step_def thread_id_def event_wait_def)
  have 10: "step N (i, c) cfg =
      (if waiters_lock (pool cfg) = None
       then Some \<lparr>pool = (pool cfg)\<lparr>waiters := removeAll (WorkerEvent i) (waiters (pool cfg)),
                                   waiters_lock := None\<rparr>,
                  threads = (threads cfg)
                    (i := WaitHandler H_Ready3 T added (tr @ [ARemove (WorkerEvent i)]) # stack)\<rparr>
       else None)"
    if "i < N" and "threads cfg i = WaitHandler H_Remove T added tr # stack"
    using that
    by (simp add: step_def frame_step_def thread_id_def remove_waiter_def spin_lock_def spin_unlock_def)
  have 11: "(tr = pre @ AWait # a # post \<longrightarrow> a = ARemove (WorkerEvent i))
            \<and> (tr = pre2 @ [AWait] \<longrightarrow> hpc = H_Remove)"
    if m: "WaitHandler hpc T added tr \<in> set (threads cfg i)"
  proof -
    have "remove_inv i (WaitHandler hpc T added tr)"
      using remove_inv_step _ _ ex m by (rule frames_ok_exec) simp_all
    then have f: "followed AWait (ARemove (WorkerEvent i)) tr"
      and l: "ends_with [AWait] tr \<longrightarrow> hpc = H_Remove" by simp_all
    from f have "tr = pre @ AWait # a # post \<longrightarrow> a = ARemove (WorkerEvent i)"
      unfolding followed_iff by blast
    moreover from l have "tr = pre2 @ [AWait] \<longrightarrow> hpc = H_Remove"
      unfolding ends_with_iff by blast
    ultimately show ?thesis by simp
  qed
  have rem: "(\<exists>t' tr' st. threads cfg j = Schedule S_Pop t' tr' # st \<and> x = last (waiters (pool cfg)))
      \<or> (\<exists>tr' st. threads cfg j = Destructor D_Clear tr' # st)
      \<or> (\<exists>T' added' tr' st. threads cfg j = WaitHandler H_Remove T' added' tr' # st
            \<and> x = WorkerEvent j)"
    if st: "step N (j, c) cfg = Some cfg'"
      and lt: "count_list (waiters (pool cfg')) x < count_list (waiters (pool cfg)) x" for x
  proof -
    from st obtain f stack0 s' fs where
      th: "threads cfg j = f # stack0" and fs: "frame_step N j c (pool cfg) f = Some (s', fs)"
      and cfg': "cfg' = \<lparr>pool = s', threads = (threads cfg)(j := fs @ stack0)\<rparr>"
      by (rule stepE)
    from lt cfg' have "count_list (waiters s') x < count_list (waiters (pool cfg)) x" by simp
    from removal_step[OF fs this] th show ?thesis by auto
  qed
  have 12: "(\<exists>t' tr' st. threads cfg j = Schedule S_Pop t' tr' # st \<and> e = last (waiters (pool cfg)))
      \<or> (\<exists>tr' st. threads cfg j = Destructor D_Clear tr' # st)
      \<or> (\<exists>T' added' tr' st. threads cfg j = WaitHandler H_Remove T' added' tr' # st
            \<and> e = WorkerEvent j)"
    if "step N (j, c) cfg = Some cfg'"
      and "count_list (waiters (pool cfg')) e < count_list (waiters (pool cfg)) e"
    using that by (rule rem)
  have 13: "(\<exists>t' tr' st. threads cfg j = Schedule S_Pop t' tr' # st)
      \<or> (\<exists>tr' st. threads cfg j = Destructor D_Clear tr' # st)"
    if st: "step N (j, c) cfg = Some cfg'" and w: "threads cfg i = [Worker pc tr]"
      and lt: "count_list (waiters (pool cfg')) (WorkerEvent i)
                < count_list (waiters (pool cfg)) (WorkerEvent i)"
    using rem[OF st lt] w by auto
  show ?thesis
    apply (intro conjI)
    subgoal using 1 by blast
    subgoal using 2 by blast
    subgoal using 3 by blast
    subgoal using 4 by blast
    subgoal using 5 by blast
    subgoal using 6 by blast
    subgoal using 7 by blast
    subgoal using 8 by blast
    subgoal using 9 by blast
    subgoal using 10 by blast
    subgoal using 11 by blast
    subgoal using 12 by blast
    subgoal using 13 by blast
    done
qed

theorem c8_waiter_removal_witness:
  "thread_of (exec 1 park) 0 = [Worker W_Register [ALocalPop None, APublicPop None,
      AShutdown False, AReset]]
   \<and> waiters (pool (the (exec 1 park))) = []
   \<and> waiters_lock (pool (the (exec 1 park))) = None
   \<and> thread_of (exec 1 (park @ [(0, Go)])) 0 = [Worker W_Shutdown2 [ALocalPop None,
       APublicPop None, AShutdown False, AReset, ARegister (WorkerEvent 0)]]
   \<and> waiters (pool (the (exec 1 (park @ [(0, Go)])))) = [WorkerEvent 0]
   \<and> waiters_lock (pool (the (exec 1 (park @ [(0, Go)])))) = None
   \<and> thread_of (exec 1 park_and_pop) 1 = [Schedule S_Pop 7 [AShutdown False, APushPublic 7,
       AEmpty False, ALock, AEmpty False], User]
   \<and> waiters (pool (the (exec 1 park_and_pop))) = [WorkerEvent 0]
   \<and> waiters_lock (pool (the (exec 1 park_and_pop))) = Some 1
   \<and> \<not> events (pool (the (exec 1 park_and_pop))) (WorkerEvent 0)
   \<and> thread_of (exec 1 (park_and_pop @ [(1, Go)])) 1
       = [Schedule (S_Unlock (Some (WorkerEvent 0))) 7 ([AShutdown False, APushPublic 7,
       AEmpty False, ALock, AEmpty False] @ [APopBack (WorkerEvent 0)]), User]
   \<and> waiters (pool (the (exec 1 (park_and_pop @ [(1, Go)])))) = []
   \<and> waiters_lock (pool (the (exec 1 (park_and_pop @ [(1, Go)])))) = Some 1
   \<and> \<not> events (pool (the (exec 1 (park_and_pop @ [(1, Go)])))) (WorkerEvent 0)
   \<and> thread_of (exec 1 (park_and_pop @ [(1, Go), (1, Go)])) 1
       = [Schedule (S_Signal (WorkerEvent 0)) 7 ([AShutdown False, APushPublic 7, AEmpty False,
       ALock, AEmpty False] @ [APopBack (WorkerEvent 0), AUnlock]), User]
   \<and> waiters_lock (pool (the (exec 1 (park_and_pop @ [(1, Go), (1, Go)])))) = None
   \<and> \<not> events (pool (the (exec 1 (park_and_pop @ [(1, Go), (1, Go)])))) (WorkerEvent 0)
   \<and> thread_of (exec 1 (park_and_pop @ [(1, Go), (1, Go), (1, Go)])) 1
       = [Schedule S_Return 7 ([AShutdown False, APushPublic 7, AEmpty False, ALock, AEmpty False]
       @ [APopBack (WorkerEvent 0), AUnlock, ASignal (WorkerEvent 0)]), User]
   \<and> waiters (pool (the (exec 1 (park_and_pop @ [(1, Go), (1, Go), (1, Go)])))) = []
   \<and> waiters_lock (pool (the (exec 1 (park_and_pop @ [(1, Go), (1, Go), (1, Go)])))) = None
   \<and> events (pool (the (exec 1 (park_and_pop @ [(1, Go), (1, Go), (1, Go)])))) (WorkerEvent 0)
   \<and> thread_of (exec 1 park_and_pop) 0 = [Worker W_Wait [ALocalPop None, APublicPop None,
       AShutdown False, AReset, ARegister (WorkerEvent 0), AShutdown False]]
   \<and> step 1 (0, Go) (the (exec 1 park_and_pop)) = None
   \<and> count_list (waiters (pool (the (exec 1 (park_and_pop @ [(1, Go)]))))) (WorkerEvent 0)
       < count_list (waiters (pool (the (exec 1 park_and_pop)))) (WorkerEvent 0)
   \<and> thread_of (exec 1 (park_and_pop @ [(1, Go), (1, Go), (1, Go)])) 0
       = [Worker W_Wait [ALocalPop None, APublicPop None, AShutdown False, AReset,
       ARegister (WorkerEvent 0), AShutdown False]]
   \<and> waiters (pool (the (exec 1 (park_and_pop @ [(1, Go), (1, Go), (1, Go)])))) = []
   \<and> events (pool (the (exec 1 (park_and_pop @ [(1, Go), (1, Go), (1, Go)])))) (WorkerEvent 0)
   \<and> thread_of (exec 1 (park_and_pop @ [(1, Go), (1, Go), (1, Go), (0, Go)])) 0
       = [Worker W_PublicPop ([ALocalPop None, APublicPop None, AShutdown False, AReset,
       ARegister (WorkerEvent 0), AShutdown False] @ [AWait])]
   \<and> waiters (pool (the (exec 1 (park_and_pop @ [(1, Go), (1, Go), (1, Go), (0, Go)])))) = []
   \<and> \<not> events (pool (the (exec 1 (park_and_pop @ [(1, Go), (1, Go), (1, Go),
       (0, Go)])))) (WorkerEvent 0)
   \<and> list_all (\<lambda>a. \<not> is_remove a) ([ALocalPop None, APublicPop None, AShutdown False, AReset,
       ARegister (WorkerEvent 0), AShutdown False] @ [AWait])
   \<and> thread_of (exec 2 nested_attach) 0 = [WaitHandler H_Register 9 True [AReady False,
       ALocalPop None, APublicPop None, ASteal 1 None, AReset, AFence, AReady False, AOnFinish 9],
       Run 5, Worker W_LocalPop [ALocalPop None, APublicPop (Some 5), ARun 5]]
   \<and> waiters (pool (the (exec 2 nested_attach))) = []
   \<and> waiters_lock (pool (the (exec 2 nested_attach))) = None
   \<and> thread_of (exec 2 (nested_attach @ [(0, Go)])) 0 = [WaitHandler H_Wait 9 True ([AReady False,
       ALocalPop None, APublicPop None, ASteal 1 None, AReset, AFence, AReady False, AOnFinish 9]
       @ [ARegister (WorkerEvent 0)]), Run 5, Worker W_LocalPop [ALocalPop None,
       APublicPop (Some 5), ARun 5]]
   \<and> waiters (pool (the (exec 2 (nested_attach @ [(0, Go)])))) = [WorkerEvent 0]
   \<and> \<not> events (pool (the (exec 2 (nested_attach @ [(0, Go)])))) (WorkerEvent 0)
   \<and> step 2 (0, Go) (the (exec 2 (nested_attach @ [(0, Go)]))) = None
   \<and> thread_of (exec 2 (nested_attach @ [(0, Go), (2, CallInline 9), (2, Return)])) 0
       = [WaitHandler H_Wait 9 True ([AReady False, ALocalPop None, APublicPop None,
       ASteal 1 None, AReset, AFence, AReady False, AOnFinish 9] @ [ARegister (WorkerEvent 0)]),
       Run 5, Worker W_LocalPop [ALocalPop None, APublicPop (Some 5), ARun 5]]
   \<and> waiters (pool (the (exec 2 (nested_attach @ [(0, Go), (2, CallInline 9), (2, Return)]))))
       = [WorkerEvent 0]
   \<and> events (pool (the (exec 2 (nested_attach @ [(0, Go), (2, CallInline 9),
       (2, Return)])))) (WorkerEvent 0)
   \<and> thread_of (exec 2 (nested_attach @ [(0, Go), (2, CallInline 9), (2, Return), (0, Go)])) 0
       = [WaitHandler H_Remove 9 True ([AReady False, ALocalPop None, APublicPop None,
       ASteal 1 None, AReset, AFence, AReady False, AOnFinish 9] @ [ARegister (WorkerEvent 0),
       AWait]), Run 5, Worker W_LocalPop [ALocalPop None, APublicPop (Some 5), ARun 5]]
   \<and> waiters (pool (the (exec 2 (nested_attach @ [(0, Go), (2, CallInline 9), (2, Return),
       (0, Go)])))) = [WorkerEvent 0]
   \<and> waiters_lock (pool (the (exec 2 (nested_attach @ [(0, Go), (2, CallInline 9), (2, Return),
       (0, Go)])))) = None
   \<and> thread_of (exec 2 (nested_attach @ [(0, Go), (2, CallInline 9), (2, Return), (0, Go),
       (0, Go)])) 0 = [WaitHandler H_Ready3 9 True ([AReady False, ALocalPop None,
       APublicPop None, ASteal 1 None, AReset, AFence, AReady False, AOnFinish 9]
       @ [ARegister (WorkerEvent 0), AWait, ARemove (WorkerEvent 0)]), Run 5,
       Worker W_LocalPop [ALocalPop None, APublicPop (Some 5), ARun 5]]
   \<and> waiters (pool (the (exec 2 (nested_attach @ [(0, Go), (2, CallInline 9), (2, Return),
       (0, Go), (0, Go)])))) = []
   \<and> waiters_lock (pool (the (exec 2 (nested_attach @ [(0, Go), (2, CallInline 9), (2, Return),
       (0, Go), (0, Go)])))) = None
   \<and> count_list (waiters (pool (the (exec 2 (nested_attach @ [(0, Go), (2, CallInline 9),
       (2, Return), (0, Go), (0, Go)]))))) (WorkerEvent 0)
       < count_list (waiters (pool (the (exec 2 (nested_attach @ [(0, Go), (2, CallInline 9),
           (2, Return), (0, Go)]))))) (WorkerEvent 0)"
proof -
  note t = c8_waiter_removal
  have "exec 1 park \<noteq> None"
    by (simp add: park_def eval_defs)
  then obtain a0 where a0: "exec 1 park = Some a0" by auto
  have Ea0: "thread_of (exec 1 park) 0 = [Worker W_Register [ALocalPop None, APublicPop None,
      AShutdown False, AReset]]"
    "waiters (pool (the (exec 1 park))) = []"
    "waiters_lock (pool (the (exec 1 park))) = None"
    by (simp_all add: park_def eval_defs)
  from Ea0 a0 have Ta0: "threads a0 0 = [Worker W_Register [ALocalPop None, APublicPop None,
      AShutdown False, AReset]]"
    by (simp add: thread_of_def)
  from Ea0 a0 have Pa0: "waiters (pool a0) = []" "waiters_lock (pool a0) = None"
    by simp_all
  define a1 where "a1 = \<lparr>pool = (pool a0)\<lparr>waiters := waiters (pool a0) @ [WorkerEvent 0],
      waiters_lock := None\<rparr>,
      threads = (threads a0)(0 := [Worker W_Shutdown2 [ALocalPop None, APublicPop None,
          AShutdown False, AReset, ARegister (WorkerEvent 0)]])\<rparr>"
  from t[OF a0, where i = 0 and tr = "[ALocalPop None, APublicPop None, AShutdown False, AReset]"
      and stack = "[]" and c = Go,
      THEN conjunct1, rule_format] Ta0 Pa0
  have Sa1: "step 1 (0, Go) a0 = Some a1"
    by (simp add: a1_def)
  with a0 have a1: "exec 1 (park @ [(0, Go)]) = Some a1"
    using exec_step[of 1 "park" a0 "(0, Go)"] by simp
  have Ta1: "threads a1 0 = [Worker W_Shutdown2 [ALocalPop None, APublicPop None, AShutdown False,
      AReset, ARegister (WorkerEvent 0)]]"
    by (simp add: a1_def)
  have Pa1: "waiters (pool a1) = [WorkerEvent 0]" "waiters_lock (pool a1) = None"
    using Pa0 by (simp_all add: a1_def)
  have "exec 1 park_and_pop \<noteq> None"
    by (simp add: park_and_pop_def park_and_submit_def eval_defs)
  then obtain b0 where b0: "exec 1 park_and_pop = Some b0" by auto
  have Eb0: "thread_of (exec 1 park_and_pop) 1 = [Schedule S_Pop 7 [AShutdown False,
      APushPublic 7, AEmpty False, ALock, AEmpty False], User]"
    "waiters (pool (the (exec 1 park_and_pop))) = [WorkerEvent 0]"
    "waiters_lock (pool (the (exec 1 park_and_pop))) = Some 1"
    "\<not> events (pool (the (exec 1 park_and_pop))) (WorkerEvent 0)"
    by (simp_all add: park_and_pop_def park_and_submit_def eval_defs)
  from Eb0 b0 have Tb0: "threads b0 1 = [Schedule S_Pop 7 [AShutdown False, APushPublic 7,
      AEmpty False, ALock, AEmpty False], User]"
    by (simp add: thread_of_def)
  from Eb0 b0 have Pb0: "waiters (pool b0) = [WorkerEvent 0]" "waiters_lock (pool b0)
      = Some 1" "\<not> events (pool b0) (WorkerEvent 0)"
    by simp_all
  define b1 where "b1 = \<lparr>pool = (pool b0)\<lparr>waiters := butlast (waiters (pool b0))\<rparr>,
      threads = (threads b0)(1 := [Schedule (S_Unlock (Some (WorkerEvent 0))) 7 ([AShutdown False,
          APushPublic 7, AEmpty False, ALock, AEmpty False] @ [APopBack (WorkerEvent 0)]),
          User])\<rparr>"
  from t[OF b0, where j = 1 and t = 7 and tr = "[AShutdown False, APushPublic 7, AEmpty False,
      ALock, AEmpty False]" and stack = "[User]" and c = Go,
      THEN conjunct2, THEN conjunct2, THEN conjunct1, rule_format] Tb0 Pb0
  have Sb1: "step 1 (1, Go) b0 = Some b1"
    by (simp add: b1_def)
  with b0 have b1: "exec 1 (park_and_pop @ [(1, Go)]) = Some b1"
    using exec_step[of 1 "park_and_pop" b0 "(1, Go)"] by simp
  have Tb1: "threads b1 1 = [Schedule (S_Unlock (Some (WorkerEvent 0))) 7 ([AShutdown False,
      APushPublic 7, AEmpty False, ALock, AEmpty False] @ [APopBack (WorkerEvent 0)]), User]"
    by (simp add: b1_def)
  have Pb1: "waiters (pool b1) = []" "waiters_lock (pool b1)
      = Some 1" "\<not> events (pool b1) (WorkerEvent 0)"
    using Pb0 by (simp_all add: b1_def)
  define b2 where "b2 = \<lparr>pool = (pool b1)\<lparr>waiters_lock := None\<rparr>,
      threads = (threads b1)(1 := [Schedule (S_Signal (WorkerEvent 0)) 7 ([AShutdown False,
          APushPublic 7, AEmpty False, ALock, AEmpty False] @ [APopBack (WorkerEvent 0),
          AUnlock]), User])\<rparr>"
  from t[OF b1, where j = 1 and t = 7 and e = "WorkerEvent 0" and tr = "[AShutdown False,
      APushPublic 7, AEmpty False, ALock, AEmpty False] @ [APopBack (WorkerEvent 0)]" and stack
      = "[User]" and c = Go,
      THEN conjunct2, THEN conjunct2, THEN conjunct2, THEN conjunct1, rule_format] Tb1 Pb1
  have Sb2: "step 1 (1, Go) b1 = Some b2"
    by (simp add: b2_def)
  with b1 have b2: "exec 1 (park_and_pop @ [(1, Go), (1, Go)]) = Some b2"
    using exec_step[of 1 "park_and_pop @ [(1, Go)]" b1 "(1, Go)"] by simp
  have Tb2: "threads b2 1 = [Schedule (S_Signal (WorkerEvent 0)) 7 ([AShutdown False,
      APushPublic 7, AEmpty False, ALock, AEmpty False] @ [APopBack (WorkerEvent 0), AUnlock]),
      User]"
    by (simp add: b2_def)
  have Pb2: "waiters (pool b2) = []" "waiters_lock (pool b2)
      = None" "\<not> events (pool b2) (WorkerEvent 0)"
    using Pb1 by (simp_all add: b2_def)
  define b3 where "b3 = \<lparr>pool = (pool b2)\<lparr>events := (events (pool b2))(WorkerEvent 0 := True)\<rparr>,
      threads = (threads b2)(1 := [Schedule S_Return 7 ([AShutdown False, APushPublic 7,
          AEmpty False, ALock, AEmpty False] @ [APopBack (WorkerEvent 0), AUnlock,
          ASignal (WorkerEvent 0)]), User])\<rparr>"
  from t[OF b2, where j = 1 and t = 7 and e = "WorkerEvent 0" and tr = "[AShutdown False,
      APushPublic 7, AEmpty False, ALock, AEmpty False] @ [APopBack (WorkerEvent 0), AUnlock]"
      and stack = "[User]" and c = Go,
      THEN conjunct2, THEN conjunct2, THEN conjunct2, THEN conjunct2, THEN conjunct1,
          rule_format] Tb2 Pb2
  have Sb3: "step 1 (1, Go) b2 = Some b3"
    by (simp add: b3_def)
  with b2 have b3: "exec 1 (park_and_pop @ [(1, Go), (1, Go), (1, Go)]) = Some b3"
    using exec_step[of 1 "park_and_pop @ [(1, Go), (1, Go)]" b2 "(1, Go)"] by simp
  have Tb3: "threads b3 1 = [Schedule S_Return 7 ([AShutdown False, APushPublic 7, AEmpty False,
      ALock, AEmpty False] @ [APopBack (WorkerEvent 0), AUnlock, ASignal (WorkerEvent 0)]), User]"
    by (simp add: b3_def)
  have Pb3: "waiters (pool b3) = []" "waiters_lock (pool b3)
      = None" "events (pool b3) (WorkerEvent 0)"
    using Pb2 by (simp_all add: b3_def)
  have "thread_of (exec 1 park_and_pop) 0 = [Worker W_Wait [ALocalPop None, APublicPop None,
      AShutdown False, AReset, ARegister (WorkerEvent 0), AShutdown False]]"
    by (simp add: park_and_pop_def park_and_submit_def eval_defs)
  with b0 have Wb0: "threads b0 0 = [Worker W_Wait [ALocalPop None, APublicPop None,
      AShutdown False, AReset, ARegister (WorkerEvent 0),
      AShutdown False]]" by (simp add: thread_of_def)
  have cnt: "count_list (waiters (pool b1)) (WorkerEvent 0) < count_list (waiters (pool b0)) (WorkerEvent 0)"
    using Pb0 Pb1 by simp
  from t[OF b0, where j = 1 and c = Go and cfg' = b1 and e = "WorkerEvent 0",
      THEN conjunct2, THEN conjunct2, THEN conjunct2, THEN conjunct2, THEN conjunct2,
          THEN conjunct2, THEN conjunct2, THEN conjunct2, THEN conjunct2, THEN conjunct2,
          THEN conjunct2, THEN conjunct1, rule_format] Sb1 cnt Tb0 Pb0
  have r12: "\<exists>t' tr' st. threads b0 1 = Schedule S_Pop t' tr' # st \<and> WorkerEvent 0
      = last (waiters (pool b0))"
    by simp
  from t[OF b0, where j = 1 and c = Go and cfg' = b1 and i = 0 and pc = W_Wait and tr
      = "[ALocalPop None, APublicPop None, AShutdown False, AReset, ARegister (WorkerEvent 0),
      AShutdown False]",
      THEN conjunct2, THEN conjunct2, THEN conjunct2, THEN conjunct2, THEN conjunct2,
          THEN conjunct2, THEN conjunct2, THEN conjunct2, THEN conjunct2, THEN conjunct2,
          THEN conjunct2, THEN conjunct2, rule_format] Sb1 cnt Wb0 Tb0
  have r13: "\<exists>t' tr' st. threads b0 1 = Schedule S_Pop t' tr' # st" by simp
  from t[OF b0, where i = 0 and tr = "[ALocalPop None, APublicPop None, AShutdown False, AReset,
      ARegister (WorkerEvent 0), AShutdown False]" and stack = "[]" and c = Go,
      THEN conjunct2, THEN conjunct2, THEN conjunct2, THEN conjunct2, THEN conjunct2,
          THEN conjunct1, rule_format] Wb0 Pb0
  have asleep: "step 1 (0, Go) b0 = None" by simp
  have "exec 1 (park_and_pop @ [(1, Go), (1, Go), (1, Go)]) \<noteq> None"
    by (simp add: park_and_pop_def park_and_submit_def eval_defs)
  then obtain c0 where c0: "exec 1 (park_and_pop @ [(1, Go), (1, Go), (1, Go)]) = Some c0" by auto
  have Ec0: "thread_of (exec 1 (park_and_pop @ [(1, Go), (1, Go), (1, Go)])) 0
      = [Worker W_Wait [ALocalPop None, APublicPop None, AShutdown False, AReset,
      ARegister (WorkerEvent 0), AShutdown False]]"
    "waiters (pool (the (exec 1 (park_and_pop @ [(1, Go), (1, Go), (1, Go)])))) = []"
    "events (pool (the (exec 1 (park_and_pop @ [(1, Go), (1, Go), (1, Go)])))) (WorkerEvent 0)"
    by (simp_all add: park_and_pop_def park_and_submit_def eval_defs)
  from Ec0 c0 have Tc0: "threads c0 0 = [Worker W_Wait [ALocalPop None, APublicPop None,
      AShutdown False, AReset, ARegister (WorkerEvent 0), AShutdown False]]"
    by (simp add: thread_of_def)
  from Ec0 c0 have Pc0: "waiters (pool c0) = []" "events (pool c0) (WorkerEvent 0)"
    by simp_all
  define c1 where "c1 = \<lparr>pool = (pool c0)\<lparr>events := (events (pool c0))(WorkerEvent 0 := False)\<rparr>,
      threads = (threads c0)(0 := [Worker W_PublicPop ([ALocalPop None, APublicPop None,
          AShutdown False, AReset, ARegister (WorkerEvent 0), AShutdown False] @ [AWait])])\<rparr>"
  from t[OF c0, where i = 0 and tr = "[ALocalPop None, APublicPop None, AShutdown False, AReset,
      ARegister (WorkerEvent 0), AShutdown False]" and stack = "[]" and c = Go,
      THEN conjunct2, THEN conjunct2, THEN conjunct2, THEN conjunct2, THEN conjunct2,
          THEN conjunct1, rule_format] Tc0 Pc0
  have Sc1: "step 1 (0, Go) c0 = Some c1"
    by (simp add: c1_def)
  with c0 have c1: "exec 1 (park_and_pop @ [(1, Go), (1, Go), (1, Go), (0, Go)]) = Some c1"
    using exec_step[of 1 "park_and_pop @ [(1, Go), (1, Go), (1, Go)]" c0 "(0, Go)"] by simp
  have Tc1: "threads c1 0 = [Worker W_PublicPop ([ALocalPop None, APublicPop None,
      AShutdown False, AReset, ARegister (WorkerEvent 0), AShutdown False] @ [AWait])]"
    by (simp add: c1_def)
  have Pc1: "waiters (pool c1) = []" "\<not> events (pool c1) (WorkerEvent 0)"
    using Pc0 by (simp_all add: c1_def)
  from t[OF c0, where i = 0 and pc = W_Wait and tr = "[ALocalPop None, APublicPop None,
      AShutdown False, AReset, ARegister (WorkerEvent 0), AShutdown False]" and stack = "[]" and c
      = Go and cfg' = c1,
      THEN conjunct2, THEN conjunct2, THEN conjunct2, THEN conjunct2, THEN conjunct2,
          THEN conjunct2, THEN conjunct1, rule_format] Tc0 Sc1
  have r7: "waiters (pool c1) = waiters (pool c0)" by simp
  from Tc1 have "Worker W_PublicPop ([ALocalPop None, APublicPop None, AShutdown False, AReset,
      ARegister (WorkerEvent 0), AShutdown False] @ [AWait]) \<in> set (threads c1 0)" by simp
  from t[OF c1, where i = 0 and pc = W_PublicPop and tr = "[ALocalPop None, APublicPop None,
      AShutdown False, AReset, ARegister (WorkerEvent 0), AShutdown False] @ [AWait]",
      THEN conjunct2, THEN conjunct2, THEN conjunct2, THEN conjunct2, THEN conjunct2,
          THEN conjunct2, THEN conjunct2, THEN conjunct1, rule_format, OF this]
  have r8: "list_all (\<lambda>a. \<not> is_remove a) ([ALocalPop None, APublicPop None, AShutdown False,
      AReset, ARegister (WorkerEvent 0), AShutdown False] @ [AWait])" .
  have "exec 2 nested_attach \<noteq> None"
    by (simp add: nested_attach_def eval_defs)
  then obtain d0 where d0: "exec 2 nested_attach = Some d0" by auto
  have Ed0: "thread_of (exec 2 nested_attach) 0 = [WaitHandler H_Register 9 True [AReady False,
      ALocalPop None, APublicPop None, ASteal 1 None, AReset, AFence, AReady False, AOnFinish 9],
      Run 5, Worker W_LocalPop [ALocalPop None, APublicPop (Some 5), ARun 5]]"
    "waiters (pool (the (exec 2 nested_attach))) = []"
    "waiters_lock (pool (the (exec 2 nested_attach))) = None"
    "\<not> events (pool (the (exec 2 nested_attach))) (WorkerEvent 0)"
    by (simp_all add: nested_attach_def eval_defs)
  from Ed0 d0 have Td0: "threads d0 0 = [WaitHandler H_Register 9 True [AReady False,
      ALocalPop None, APublicPop None, ASteal 1 None, AReset, AFence, AReady False, AOnFinish 9],
      Run 5, Worker W_LocalPop [ALocalPop None, APublicPop (Some 5), ARun 5]]"
    by (simp add: thread_of_def)
  from Ed0 d0 have Pd0: "waiters (pool d0) = []" "waiters_lock (pool d0)
      = None" "\<not> events (pool d0) (WorkerEvent 0)"
    by simp_all
  define d1 where "d1 = \<lparr>pool = (pool d0)\<lparr>waiters := waiters (pool d0) @ [WorkerEvent 0],
      waiters_lock := None\<rparr>,
      threads = (threads d0)(0 := [WaitHandler H_Wait 9 True ([AReady False, ALocalPop None,
          APublicPop None, ASteal 1 None, AReset, AFence, AReady False, AOnFinish 9]
          @ [ARegister (WorkerEvent 0)]), Run 5, Worker W_LocalPop [ALocalPop None,
          APublicPop (Some 5), ARun 5]])\<rparr>"
  from t[OF d0, where i = 0 and T = 9 and added = True and tr = "[AReady False, ALocalPop None,
      APublicPop None, ASteal 1 None, AReset, AFence, AReady False, AOnFinish 9]" and stack
      = "[Run 5, Worker W_LocalPop [ALocalPop None, APublicPop (Some 5), ARun 5]]" and c = Go,
      THEN conjunct2, THEN conjunct1, rule_format] Td0 Pd0
  have Sd1: "step 2 (0, Go) d0 = Some d1"
    by (simp add: d1_def)
  with d0 have d1: "exec 2 (nested_attach @ [(0, Go)]) = Some d1"
    using exec_step[of 2 "nested_attach" d0 "(0, Go)"] by simp
  have Td1: "threads d1 0 = [WaitHandler H_Wait 9 True ([AReady False, ALocalPop None,
      APublicPop None, ASteal 1 None, AReset, AFence, AReady False, AOnFinish 9]
      @ [ARegister (WorkerEvent 0)]), Run 5, Worker W_LocalPop [ALocalPop None,
      APublicPop (Some 5), ARun 5]]"
    by (simp add: d1_def)
  have Pd1: "waiters (pool d1) = [WorkerEvent 0]" "waiters_lock (pool d1)
      = None" "\<not> events (pool d1) (WorkerEvent 0)"
    using Pd0 by (simp_all add: d1_def)
  from t[OF d1, where i = 0 and T = 9 and added = True and tr = "[AReady False, ALocalPop None,
      APublicPop None, ASteal 1 None, AReset, AFence, AReady False, AOnFinish 9]
      @ [ARegister (WorkerEvent 0)]" and stack = "[Run 5, Worker W_LocalPop [ALocalPop None,
      APublicPop (Some 5), ARun 5]]" and c = Go,
      THEN conjunct2, THEN conjunct2, THEN conjunct2, THEN conjunct2, THEN conjunct2,
          THEN conjunct2, THEN conjunct2, THEN conjunct2, THEN conjunct1, rule_format] Td1 Pd1
  have waiting: "step 2 (0, Go) d1 = None" by simp
  have "exec 2 (nested_attach @ [(0, Go), (2, CallInline 9), (2, Return)]) \<noteq> None"
    by (simp add: nested_attach_def inline_schedule_def eval_defs)
  then obtain e0 where e0: "exec 2 (nested_attach @ [(0, Go), (2, CallInline 9), (2, Return)])
      = Some e0" by auto
  have Ee0: "thread_of (exec 2 (nested_attach @ [(0, Go), (2, CallInline 9), (2, Return)])) 0
      = [WaitHandler H_Wait 9 True ([AReady False, ALocalPop None, APublicPop None, ASteal 1 None,
      AReset, AFence, AReady False, AOnFinish 9] @ [ARegister (WorkerEvent 0)]), Run 5,
      Worker W_LocalPop [ALocalPop None, APublicPop (Some 5), ARun 5]]"
    "waiters (pool (the (exec 2 (nested_attach @ [(0, Go), (2, CallInline 9), (2, Return)]))))
        = [WorkerEvent 0]"
    "waiters_lock (pool (the (exec 2 (nested_attach @ [(0, Go), (2, CallInline 9),
        (2, Return)])))) = None"
    "events (pool (the (exec 2 (nested_attach @ [(0, Go), (2, CallInline 9),
        (2, Return)])))) (WorkerEvent 0)"
    by (simp_all add: nested_attach_def inline_schedule_def eval_defs)
  from Ee0 e0 have Te0: "threads e0 0 = [WaitHandler H_Wait 9 True ([AReady False, ALocalPop None,
      APublicPop None, ASteal 1 None, AReset, AFence, AReady False, AOnFinish 9]
      @ [ARegister (WorkerEvent 0)]), Run 5, Worker W_LocalPop [ALocalPop None,
      APublicPop (Some 5), ARun 5]]"
    by (simp add: thread_of_def)
  from Ee0 e0 have Pe0: "waiters (pool e0) = [WorkerEvent 0]" "waiters_lock (pool e0)
      = None" "events (pool e0) (WorkerEvent 0)"
    by simp_all
  define e1 where "e1 = \<lparr>pool = (pool e0)\<lparr>events := (events (pool e0))(WorkerEvent 0 := False)\<rparr>,
      threads = (threads e0)(0 := [WaitHandler H_Remove 9 True ([AReady False, ALocalPop None,
          APublicPop None, ASteal 1 None, AReset, AFence, AReady False, AOnFinish 9]
          @ [ARegister (WorkerEvent 0), AWait]), Run 5, Worker W_LocalPop [ALocalPop None,
          APublicPop (Some 5), ARun 5]])\<rparr>"
  from t[OF e0, where i = 0 and T = 9 and added = True and tr = "[AReady False, ALocalPop None,
      APublicPop None, ASteal 1 None, AReset, AFence, AReady False, AOnFinish 9]
      @ [ARegister (WorkerEvent 0)]" and stack = "[Run 5, Worker W_LocalPop [ALocalPop None,
      APublicPop (Some 5), ARun 5]]" and c = Go,
      THEN conjunct2, THEN conjunct2, THEN conjunct2, THEN conjunct2, THEN conjunct2,
          THEN conjunct2, THEN conjunct2, THEN conjunct2, THEN conjunct1, rule_format] Te0 Pe0
  have Se1: "step 2 (0, Go) e0 = Some e1"
    by (simp add: e1_def)
  with e0 have e1: "exec 2 (nested_attach @ [(0, Go), (2, CallInline 9), (2, Return), (0, Go)])
      = Some e1"
    using exec_step[of 2 "nested_attach @ [(0, Go), (2, CallInline 9),
        (2, Return)]" e0 "(0, Go)"] by simp
  have Te1: "threads e1 0 = [WaitHandler H_Remove 9 True ([AReady False, ALocalPop None,
      APublicPop None, ASteal 1 None, AReset, AFence, AReady False, AOnFinish 9]
      @ [ARegister (WorkerEvent 0), AWait]), Run 5, Worker W_LocalPop [ALocalPop None,
      APublicPop (Some 5), ARun 5]]"
    by (simp add: e1_def)
  have Pe1: "waiters (pool e1) = [WorkerEvent 0]" "waiters_lock (pool e1)
      = None" "\<not> events (pool e1) (WorkerEvent 0)"
    using Pe0 by (simp_all add: e1_def)
  define e2 where "e2 = \<lparr>pool
      = (pool e1)\<lparr>waiters := removeAll (WorkerEvent 0) (waiters (pool e1)), waiters_lock := None\<rparr>,
      threads = (threads e1)(0 := [WaitHandler H_Ready3 9 True ([AReady False, ALocalPop None,
          APublicPop None, ASteal 1 None, AReset, AFence, AReady False, AOnFinish 9]
          @ [ARegister (WorkerEvent 0), AWait, ARemove (WorkerEvent 0)]), Run 5,
          Worker W_LocalPop [ALocalPop None, APublicPop (Some 5), ARun 5]])\<rparr>"
  from t[OF e1, where i = 0 and T = 9 and added = True and tr = "[AReady False, ALocalPop None,
      APublicPop None, ASteal 1 None, AReset, AFence, AReady False, AOnFinish 9]
      @ [ARegister (WorkerEvent 0), AWait]" and stack = "[Run 5,
      Worker W_LocalPop [ALocalPop None, APublicPop (Some 5), ARun 5]]" and c = Go,
      THEN conjunct2, THEN conjunct2, THEN conjunct2, THEN conjunct2, THEN conjunct2,
          THEN conjunct2, THEN conjunct2, THEN conjunct2, THEN conjunct2, THEN conjunct1,
          rule_format] Te1 Pe1
  have Se2: "step 2 (0, Go) e1 = Some e2"
    by (simp add: e2_def)
  with e1 have e2: "exec 2 (nested_attach @ [(0, Go), (2, CallInline 9), (2, Return), (0, Go),
      (0, Go)]) = Some e2"
    using exec_step[of 2 "nested_attach @ [(0, Go), (2, CallInline 9), (2, Return),
        (0, Go)]" e1 "(0, Go)"] by simp
  have Te2: "threads e2 0 = [WaitHandler H_Ready3 9 True ([AReady False, ALocalPop None,
      APublicPop None, ASteal 1 None, AReset, AFence, AReady False, AOnFinish 9]
      @ [ARegister (WorkerEvent 0), AWait, ARemove (WorkerEvent 0)]), Run 5,
      Worker W_LocalPop [ALocalPop None, APublicPop (Some 5), ARun 5]]"
    by (simp add: e2_def)
  have Pe2: "waiters (pool e2) = []" "waiters_lock (pool e2)
      = None" "\<not> events (pool e2) (WorkerEvent 0)"
    using Pe1 by (simp_all add: e2_def)
  have cnt2: "count_list (waiters (pool e2)) (WorkerEvent 0) < count_list (waiters (pool e1)) (WorkerEvent 0)"
    using Pe1 Pe2 by simp
  from t[OF e1, where j = 0 and c = Go and cfg' = e2 and e = "WorkerEvent 0",
      THEN conjunct2, THEN conjunct2, THEN conjunct2, THEN conjunct2, THEN conjunct2,
          THEN conjunct2, THEN conjunct2, THEN conjunct2, THEN conjunct2, THEN conjunct2,
          THEN conjunct2, THEN conjunct1, rule_format] Se2 cnt2 Te1
  have r12': "\<exists>T' added' tr' st. threads e1 0 = WaitHandler H_Remove T' added' tr' # st" by simp
  from Te1 have m1: "WaitHandler H_Remove 9 True ([AReady False, ALocalPop None, APublicPop None,
      ASteal 1 None, AReset, AFence, AReady False, AOnFinish 9] @ [ARegister (WorkerEvent 0),
      AWait]) \<in> set (threads e1 0)"
    by simp
  from t[OF e1, where i = 0 and hpc = H_Remove and T = 9 and added = True
        and tr = "[AReady False, ALocalPop None, APublicPop None, ASteal 1 None, AReset, AFence,
            AReady False, AOnFinish 9] @ [ARegister (WorkerEvent 0), AWait]"
        and ?pre2.0 = "[AReady False, ALocalPop None, APublicPop None, ASteal 1 None, AReset,
            AFence, AReady False, AOnFinish 9] @ [ARegister (WorkerEvent 0)]",
      THEN conjunct2, THEN conjunct2, THEN conjunct2, THEN conjunct2, THEN conjunct2,
          THEN conjunct2, THEN conjunct2, THEN conjunct2, THEN conjunct2, THEN conjunct2,
          THEN conjunct1, rule_format, OF m1, THEN conjunct2]
  have r11: "H_Remove = H_Remove" by simp
  from Te2 have m2: "WaitHandler H_Ready3 9 True ([AReady False, ALocalPop None, APublicPop None,
      ASteal 1 None, AReset, AFence, AReady False, AOnFinish 9] @ [ARegister (WorkerEvent 0),
      AWait, ARemove (WorkerEvent 0)])
      \<in> set (threads e2 0)" by simp
  from t[OF e2, where i = 0 and hpc = H_Ready3 and T = 9 and added = True
        and tr = "[AReady False, ALocalPop None, APublicPop None, ASteal 1 None, AReset, AFence,
            AReady False, AOnFinish 9] @ [ARegister (WorkerEvent 0), AWait,
            ARemove (WorkerEvent 0)]"
        and pre = "[AReady False, ALocalPop None, APublicPop None, ASteal 1 None, AReset, AFence,
            AReady False, AOnFinish 9] @ [ARegister (WorkerEvent 0)]" and a
            = "ARemove (WorkerEvent 0)" and post = "[]",
      THEN conjunct2, THEN conjunct2, THEN conjunct2, THEN conjunct2, THEN conjunct2,
          THEN conjunct2, THEN conjunct2, THEN conjunct2, THEN conjunct2, THEN conjunct2,
          THEN conjunct1, rule_format, OF m2, THEN conjunct1]
  have r11': "ARemove (WorkerEvent 0) = ARemove (WorkerEvent 0)" by simp
  from a0 a1 b0 b1 b2 b3 c0 c1 d0 d1 e0 e1 e2
    Ta0 Pa0 Ta1 Pa1 Tb0 Pb0 Tb1 Pb1 Tb2 Pb2 Tb3 Pb3 Tc0 Pc0 Tc1 Pc1 Td0 Pd0 Td1 Pd1 waiting Te0 Pe0 Te1 Pe1 Te2 Pe2
    Wb0 cnt r12 r13 asleep r7 r8 cnt2 r12' r11 r11'
  show ?thesis by (simp add: thread_of_def)
qed

section \<open>Waiting outside the pool\<close>

lemma generic_inv_step:
  "generic_inv tid f \<Longrightarrow> frame_step N tid c s f = Some (s', fs) \<Longrightarrow> list_all (generic_inv tid) fs"
proof (cases f)
  case (Worker pc tr)
  assume "frame_step N tid c s f = Some (s', fs)"
  with Worker show ?thesis
    by (cases pc) (auto simp: frame_step_def split: step_splits choice.splits)
next
  case (WaitHandler pc T added tr)
  assume "frame_step N tid c s f = Some (s', fs)"
  with WaitHandler show ?thesis
    by (cases pc) (auto simp: frame_step_def split: step_splits choice.splits)
next
  case (Schedule pc t tr)
  assume "frame_step N tid c s f = Some (s', fs)"
  with Schedule show ?thesis
    by (cases pc) (auto simp: frame_step_def split: step_splits)
next
  case (Generic pc T tr)
  assume "generic_inv tid f" "frame_step N tid c s f = Some (s', fs)"
  with Generic show ?thesis
    by (cases pc) (auto simp: frame_step_def split: step_splits)
next
  case (Destructor pc tr)
  assume "frame_step N tid c s f = Some (s', fs)"
  with Destructor show ?thesis
    by (cases pc) (auto simp: frame_step_def split: step_splits)
next
  case (Run t)
  assume "frame_step N tid c s f = Some (s', fs)"
  with Run show ?thesis
    by (cases c) (auto simp: frame_step_def wait_for_task_def inline_schedule_def split: wait_handler.splits)
next
  case User
  assume "frame_step N tid c s f = Some (s', fs)"
  with User show ?thesis
    by (cases c) (auto simp: frame_step_def wait_for_task_def inline_schedule_def split: if_splits wait_handler.splits)
next
  case (Custom T)
  assume "frame_step N tid c s f = Some (s', fs)"
  with Custom show ?thesis
    by (cases c) (auto simp: frame_step_def wait_for_task_def inline_schedule_def split: if_splits wait_handler.splits)
qed

lemma others_run:
  assumes "others tid sch" and "run_steps N sch cfg = Some cfg'"
  shows "threads cfg' tid = threads cfg tid
       \<and> (ready (pool cfg) T \<longrightarrow> ready (pool cfg') T)
       \<and> (events (pool cfg) (LocalEvent tid) \<longrightarrow> events (pool cfg') (LocalEvent tid))"
  using assms
proof (induction sch arbitrary: cfg)
  case Nil
  then show ?case by simp
next
  case (Cons a sch)
  obtain j c where a: "a = (j, c)" by (cases a)
  from Cons.prems a have j: "j \<noteq> tid" and o: "others tid sch" by (simp_all add: others_def)
  from Cons.prems(2) a obtain cfg1 where s1: "step N (j, c) cfg = Some cfg1"
    and r: "run_steps N sch cfg1 = Some cfg'" by (auto split: option.splits)
  from s1 obtain f stack s' fs where
    fs: "frame_step N j c (pool cfg) f = Some (s', fs)"
    and cfg1: "cfg1 = \<lparr>pool = s', threads = (threads cfg)(j := fs @ stack)\<rparr>"
    by (rule stepE)
  from others_step[OF fs] j cfg1
  have "threads cfg1 tid = threads cfg tid"
    "ready (pool cfg) T \<longrightarrow> ready (pool cfg1) T"
    "events (pool cfg) (LocalEvent tid) \<longrightarrow> events (pool cfg1) (LocalEvent tid)"
    by simp_all
  with Cons.IH[OF o r] show ?case by simp
qed

lemma handler_step:
  assumes "frame_step N tid c s f = Some (s', fs)"
  shows "(\<forall>i. i \<noteq> tid \<longrightarrow> thread_wait_handler s' i = thread_wait_handler s i)
       \<and> (\<not> is_set_handler c \<longrightarrow> thread_wait_handler s' = thread_wait_handler s)"
proof (cases f)
  case (Worker pc tr)
  with assms show ?thesis
    by (cases pc) (auto simp: frame_step_def prim_defs split: step_splits choice.splits dest!: steal_task_pool)
next
  case (WaitHandler pc T added tr)
  with assms show ?thesis
    by (cases pc) (auto simp: frame_step_def prim_defs split: step_splits choice.splits dest!: steal_task_pool)
next
  case (Schedule pc t tr)
  with assms show ?thesis
    by (cases pc) (auto simp: frame_step_def prim_defs split: step_splits)
next
  case (Generic pc T tr)
  with assms show ?thesis
    by (cases pc) (auto simp: frame_step_def prim_defs split: step_splits)
next
  case (Destructor pc tr)
  with assms show ?thesis
    by (cases pc) (auto simp: frame_step_def prim_defs split: step_splits)
next
  case (Run t)
  with assms show ?thesis
    by (cases c) (auto simp: frame_step_def prim_defs split: if_splits wait_handler.splits)
next
  case User
  with assms show ?thesis
    by (cases c) (auto simp: frame_step_def prim_defs split: if_splits wait_handler.splits)
next
  case (Custom T)
  with assms show ?thesis
    by (cases c) (auto simp: frame_step_def prim_defs split: if_splits wait_handler.splits)
qed

lemma handler_run:
  assumes "run_steps N sch cfg = Some cfg'" and "own_handler tid sch"
  shows "thread_wait_handler (pool cfg') tid = thread_wait_handler (pool cfg) tid"
  using assms
proof (induction sch arbitrary: cfg)
  case Nil
  then show ?case by simp
next
  case (Cons a sch)
  obtain j c where a: "a = (j, c)" by (cases a)
  from Cons.prems a have own: "j = tid \<longrightarrow> \<not> is_set_handler c" and o: "own_handler tid sch"
    by (simp_all add: own_handler_def)
  from Cons.prems(1) a obtain cfg1 where s1: "step N (j, c) cfg = Some cfg1"
    and r: "run_steps N sch cfg1 = Some cfg'" by (auto split: option.splits)
  from s1 obtain f stack s' fs where
    fs: "frame_step N j c (pool cfg) f = Some (s', fs)"
    and cfg1: "cfg1 = \<lparr>pool = s', threads = (threads cfg)(j := fs @ stack)\<rparr>"
    by (rule stepE)
  from handler_step[OF fs] own cfg1
  have "thread_wait_handler (pool cfg1) tid = thread_wait_handler (pool cfg) tid"
    by (cases "j = tid") simp_all
  with Cons.IH[OF r o] show ?case by simp
qed

lemma generic_trace:
  assumes "exec N sched = Some cfg" and "threads cfg tid = Generic pc T tr # stack"
  shows "generic_inv tid (Generic pc T tr)"
proof -
  from assms(2) have "Generic pc T tr \<in> set (threads cfg tid)" by simp
  with generic_inv_step _ _ assms(1) show ?thesis by (rule frames_ok_exec) simp_all
qed

text \<open>
  Claim C10, as stated: every call of \<open>wait_for_task\<close> by a thread that is no worker runs
  \<open>generic_wait_handler\<close>, which attaches the continuation. In the run \<open>custom_wait\<close>
  thread 2, which is no worker, has replaced its wait handler: its call of
  \<open>wait_for_task(5)\<close> runs the handler of the user's, and no continuation is attached to
  task 5.
\<close>

theorem c10_counterexample:
  "thread_of (exec 1 custom_wait) 2 = [Custom 5, User]
   \<and> conts (pool (the (exec 1 custom_wait))) 5 = []"
  by (simp add: custom_wait_def eval_defs)

text \<open>
  Claim C10, amended. A thread that is no worker and has not called
  \<open>set_thread_wait_handler\<close> has \<open>generic_wait_handler\<close> as its wait handler, and a call
  of \<open>wait_for_task(T)\<close> by a thread with that handler runs \<open>generic_wait_handler(T)\<close>.
  The call creates its event unsignalled, then calls \<open>on_finish\<close>, whether or not the task
  is complete: before that step its trace is the creation of the event alone. The step
  registers the event with the task; for a task that is complete already it signals the
  event instead when \<open>on_finish\<close> invokes the callback at once. \<open>wait()\<close> then blocks while
  the event is not signalled and consumes the signal, after which the call returns. The
  task that completes signals the events registered with it. Last conjunct: when the
  task is complete at the call and \<open>on_finish\<close> invokes the callback at once, the event
  stays signalled whatever the other threads do, so \<open>wait()\<close> can return.
\<close>

theorem c10_generic_wait:
  assumes ex: "exec N sched = Some cfg"
  shows "(\<not> tid < N \<and> own_handler tid sched \<longrightarrow> thread_wait_handler (pool cfg) tid = HGeneric)
       \<and> (thread_wait_handler (pool cfg) tid = HGeneric \<and> threads cfg tid = f # stack
            \<and> (f = User \<or> f = Run t \<or> f = Custom U) \<longrightarrow>
            step N (tid, CallWait T) cfg =
              Some \<lparr>pool = pool cfg, threads = (threads cfg)(tid := Generic G_Create T [] # f # stack)\<rparr>)
       \<and> (threads cfg tid = Generic G_Create T tr # stack \<longrightarrow>
            tr = []
            \<and> step N (tid, c) cfg =
                Some \<lparr>pool = (pool cfg)\<lparr>events := (events (pool cfg))(LocalEvent tid := False)\<rparr>,
                      threads = (threads cfg)(tid := Generic G_Attach T [ACreate] # stack)\<rparr>)
       \<and> (threads cfg tid = Generic G_Attach T tr # stack \<longrightarrow>
            tr = [ACreate]
            \<and> step N (tid, c) cfg =
                Some \<lparr>pool =
                        (if ready (pool cfg) T \<and> c \<noteq> Late
                         then (pool cfg)\<lparr>events := (events (pool cfg))(LocalEvent tid := True)\<rparr>
                         else (pool cfg)\<lparr>conts := (conts (pool cfg))
                                 (T := conts (pool cfg) T @ [LocalEvent tid])\<rparr>),
                      threads = (threads cfg)(tid := Generic G_Wait T [ACreate, AOnFinish T] # stack)\<rparr>)
       \<and> (threads cfg tid = Generic G_Wait T tr # stack \<longrightarrow>
            tr = [ACreate, AOnFinish T]
            \<and> step N (tid, c) cfg =
                (if events (pool cfg) (LocalEvent tid)
                 then Some \<lparr>pool = (pool cfg)\<lparr>events := (events (pool cfg))(LocalEvent tid := False)\<rparr>,
                            threads = (threads cfg)
                              (tid := Generic G_Return T [ACreate, AOnFinish T, AWait] # stack)\<rparr>
                 else None))
       \<and> (threads cfg tid = Generic G_Return T tr # stack \<longrightarrow>
            tr = [ACreate, AOnFinish T, AWait]
            \<and> step N (tid, c) cfg = Some \<lparr>pool = pool cfg, threads = (threads cfg)(tid := stack)\<rparr>)
       \<and> (threads cfg j = Run T # st \<longrightarrow>
            step N (j, Return) cfg =
              Some \<lparr>pool = (pool cfg)\<lparr>events := (\<lambda>e. e \<in> set (conts (pool cfg) T) \<or> events (pool cfg) e),
                                      ready := (ready (pool cfg))(T := True),
                                      conts := (conts (pool cfg))(T := [])\<rparr>,
                    threads = (threads cfg)(j := st)\<rparr>)
       \<and> (threads cfg tid = Generic G_Create T [] # stack \<and> ready (pool cfg) T \<and> cb \<noteq> Late
            \<and> others tid oa \<and> others tid ob \<and> others tid oc
            \<and> run_steps N (oa @ [(tid, ca)] @ ob @ [(tid, cb)] @ oc) cfg = Some cfg' \<longrightarrow>
            threads cfg' tid = Generic G_Wait T [ACreate, AOnFinish T] # stack
            \<and> events (pool cfg') (LocalEvent tid))"
proof -
  have 1: "thread_wait_handler (pool cfg) tid = HGeneric"
    if "\<not> tid < N" and "own_handler tid sched"
    using handler_run[OF ex[unfolded exec_def] that(2)] that(1) by (simp add: init_def init_pool_def)
  have 2: "step N (tid, CallWait T) cfg =
      Some \<lparr>pool = pool cfg, threads = (threads cfg)(tid := Generic G_Create T [] # f # stack)\<rparr>"
    if "thread_wait_handler (pool cfg) tid = HGeneric" and "threads cfg tid = f # stack"
      and "f = User \<or> f = Run t \<or> f = Custom U"
    using that by (auto simp: step_def frame_step_def wait_for_task_def)
  have 3: "tr = []
      \<and> step N (tid, c) cfg =
          Some \<lparr>pool = (pool cfg)\<lparr>events := (events (pool cfg))(LocalEvent tid := False)\<rparr>,
                threads = (threads cfg)(tid := Generic G_Attach T [ACreate] # stack)\<rparr>"
    if th: "threads cfg tid = Generic G_Create T tr # stack"
    using generic_trace[OF ex th] th by (simp add: step_def frame_step_def event_reset_def)
  have 4: "tr = [ACreate]
      \<and> step N (tid, c) cfg =
          Some \<lparr>pool =
                  (if ready (pool cfg) T \<and> c \<noteq> Late
                   then (pool cfg)\<lparr>events := (events (pool cfg))(LocalEvent tid := True)\<rparr>
                   else (pool cfg)\<lparr>conts := (conts (pool cfg))
                           (T := conts (pool cfg) T @ [LocalEvent tid])\<rparr>),
                threads = (threads cfg)(tid := Generic G_Wait T [ACreate, AOnFinish T] # stack)\<rparr>"
    if th: "threads cfg tid = Generic G_Attach T tr # stack"
    using generic_trace[OF ex th] th
    by (simp add: step_def frame_step_def on_finish_def event_signal_def)
  have 5: "tr = [ACreate, AOnFinish T]
      \<and> step N (tid, c) cfg =
          (if events (pool cfg) (LocalEvent tid)
           then Some \<lparr>pool = (pool cfg)\<lparr>events := (events (pool cfg))(LocalEvent tid := False)\<rparr>,
                      threads = (threads cfg)
                        (tid := Generic G_Return T [ACreate, AOnFinish T, AWait] # stack)\<rparr>
           else None)"
    if th: "threads cfg tid = Generic G_Wait T tr # stack"
    using generic_trace[OF ex th] th by (simp add: step_def frame_step_def event_wait_def)
  have 6: "tr = [ACreate, AOnFinish T, AWait]
      \<and> step N (tid, c) cfg = Some \<lparr>pool = pool cfg, threads = (threads cfg)(tid := stack)\<rparr>"
    if th: "threads cfg tid = Generic G_Return T tr # stack"
    using generic_trace[OF ex th] th by (simp add: step_def frame_step_def)
  have 7: "step N (j, Return) cfg =
      Some \<lparr>pool = (pool cfg)\<lparr>events := (\<lambda>e. e \<in> set (conts (pool cfg) T) \<or> events (pool cfg) e),
                              ready := (ready (pool cfg))(T := True),
                              conts := (conts (pool cfg))(T := [])\<rparr>,
            threads = (threads cfg)(j := st)\<rparr>"
    if "threads cfg j = Run T # st"
    using that by (simp add: step_def frame_step_def task_finish_def)
  have 8: "threads cfg' tid = Generic G_Wait T [ACreate, AOnFinish T] # stack
      \<and> events (pool cfg') (LocalEvent tid)"
    if top: "threads cfg tid = Generic G_Create T [] # stack" and rdy: "ready (pool cfg) T"
      and cb: "cb \<noteq> Late" and o: "others tid oa" "others tid ob" "others tid oc"
      and run: "run_steps N (oa @ [(tid, ca)] @ ob @ [(tid, cb)] @ oc) cfg = Some cfg'"
  proof -
    from run obtain cfg1 cfg2 cfg3 cfg4 where
      r1: "run_steps N oa cfg = Some cfg1" and s1: "step N (tid, ca) cfg1 = Some cfg2"
      and r2: "run_steps N ob cfg2 = Some cfg3" and s2: "step N (tid, cb) cfg3 = Some cfg4"
      and r3: "run_steps N oc cfg4 = Some cfg'"
      by (auto simp: run_steps_append split: option.splits)
    from others_run[OF o(1) r1, of T] top rdy
    have t1: "threads cfg1 tid = Generic G_Create T [] # stack" and y1: "ready (pool cfg1) T"
      by simp_all
    from s1 t1 have t2: "threads cfg2 tid = Generic G_Attach T [ACreate] # stack"
      and y2: "ready (pool cfg2) T \<longleftrightarrow> ready (pool cfg1) T"
      by (auto simp: step_def frame_step_def prim_defs)
    from others_run[OF o(2) r2, of T] t2 y1 y2
    have t3: "threads cfg3 tid = Generic G_Attach T [ACreate] # stack" and y3: "ready (pool cfg3) T"
      by simp_all
    from s2 t3 y3 cb have t4: "threads cfg4 tid = Generic G_Wait T [ACreate, AOnFinish T] # stack"
      and e4: "events (pool cfg4) (LocalEvent tid)"
      by (auto simp: step_def frame_step_def prim_defs)
    from others_run[OF o(3) r3, of T] t4 e4 show ?thesis by simp
  qed
  show ?thesis
    apply (intro conjI)
    subgoal using 1 by blast
    subgoal using 2 by blast
    subgoal using 3 by blast
    subgoal using 4 by blast
    subgoal using 5 by blast
    subgoal using 6 by blast
    subgoal using 7 by blast
    subgoal using 8 by blast
    done
qed

theorem c10_generic_wait_witness:
  "thread_wait_handler (pool (the (exec 1 completed))) 2 = HGeneric
   \<and> thread_of (exec 1 wait_completed) 2 = [Generic G_Create 5 [], User]
   \<and> ready (pool (the (exec 1 wait_completed))) 5
   \<and> thread_of (exec 1 (wait_completed @ [(2, Go)])) 2 = [Generic G_Attach 5 [ACreate], User]
   \<and> \<not> events (pool (the (exec 1 (wait_completed @ [(2, Go)])))) (LocalEvent 2)
   \<and> thread_of (exec 1 (wait_completed @ [(2, Go), (2, Go)])) 2 =
       [Generic G_Wait 5 [ACreate, AOnFinish 5], User]
   \<and> events (pool (the (exec 1 (wait_completed @ [(2, Go), (2, Go)])))) (LocalEvent 2)
   \<and> thread_of (exec 1 (wait_completed @ [(2, Go), (2, Go), (2, Go)])) 2 =
       [Generic G_Return 5 [ACreate, AOnFinish 5, AWait], User]
   \<and> \<not> events (pool (the (exec 1 (wait_completed @ [(2, Go), (2, Go), (2, Go)])))) (LocalEvent 2)
   \<and> thread_of (exec 1 (wait_completed @ [(2, Go), (2, Go), (2, Go), (2, Go)])) 2 = [User]
   \<and> thread_of (exec 1 (wait_completed @ [(0, Go), (0, Go), (2, Go), (0, Go), (0, Perm [0]),
        (2, Go), (0, Go), (0, Go)])) 2 = [Generic G_Wait 5 [ACreate, AOnFinish 5], User]
   \<and> events (pool (the (exec 1 (wait_completed @ [(0, Go), (0, Go), (2, Go), (0, Go), (0, Perm [0]),
        (2, Go), (0, Go), (0, Go)])))) (LocalEvent 2)
   \<and> thread_of (exec 1 (wait_completed @ [(2, Go), (2, Late)])) 2 =
       [Generic G_Wait 5 [ACreate, AOnFinish 5], User]
   \<and> step 1 (2, Go) (the (exec 1 (wait_completed @ [(2, Go), (2, Late)]))) = None
   \<and> thread_of (exec 1 wait_pending) 2 = [Generic G_Attach 5 [ACreate], User]
   \<and> \<not> ready (pool (the (exec 1 wait_pending))) 5
   \<and> conts (pool (the (exec 1 (wait_pending @ [(2, Go)])))) 5 = [LocalEvent 2]
   \<and> step 1 (2, Go) (the (exec 1 (wait_pending @ [(2, Go)]))) = None
   \<and> events (pool (the (exec 1 (wait_pending @ [(2, Go), (0, Return)])))) (LocalEvent 2)
   \<and> thread_of (exec 1 (wait_pending @ [(2, Go), (0, Return), (2, Go)])) 2 =
       [Generic G_Return 5 [ACreate, AOnFinish 5, AWait], User]"
proof -
  note t = c10_generic_wait
  let ?rest = "[(0, Go), (0, Go)] @ [(2, Go)] @ [(0, Go), (0, Perm [0])] @ [(2, Go)] @ [(0, Go), (0, Go)]"
  have e0: "exec 1 completed \<noteq> None"
    by (simp add: completed_def eval_defs)
  then obtain c0 where c0: "exec 1 completed = Some c0" by auto
  have "thread_of (exec 1 completed) 2 = [User]" "ready (pool (the (exec 1 completed))) 5"
    "\<not> events (pool (the (exec 1 completed))) (LocalEvent 2)"
    by (simp_all add: completed_def eval_defs)
  with c0 have t0: "threads c0 2 = [User]" and r0: "ready (pool c0) 5"
    and v0: "\<not> events (pool c0) (LocalEvent 2)"
    by (simp_all add: thread_of_def)
  have own: "own_handler 2 completed" by (simp add: own_handler_def completed_def)
  from t[OF c0, where tid = 2, THEN conjunct1, rule_format] own
  have h0: "thread_wait_handler (pool c0) 2 = HGeneric" by simp
  define c1 where "c1 = \<lparr>pool = pool c0, threads = (threads c0)(2 := [Generic G_Create 5 [], User])\<rparr>"
  from t[OF c0, where tid = 2 and f = User and stack = "[]" and T = 5,
      THEN conjunct2, THEN conjunct1, rule_format] h0 t0
  have "step 1 (2, CallWait 5) c0 = Some c1" by (simp add: c1_def)
  with c0 have c1: "exec 1 wait_completed = Some c1" by (simp add: wait_completed_def exec_step)
  have t1: "threads c1 2 = Generic G_Create 5 [] # [User]" and r1: "ready (pool c1) 5"
    using r0 by (simp_all add: c1_def)
  define c2 where "c2 = \<lparr>pool = (pool c1)\<lparr>events := (events (pool c1))(LocalEvent 2 := False)\<rparr>,
      threads = (threads c1)(2 := [Generic G_Attach 5 [ACreate], User])\<rparr>"
  from t[OF c1, where tid = 2 and T = 5 and tr = "[]" and stack = "[User]" and c = Go,
      THEN conjunct2, THEN conjunct2, THEN conjunct1, rule_format, OF t1]
  have "step 1 (2, Go) c1 = Some c2" by (simp add: c2_def)
  with c1 have c2: "exec 1 (wait_completed @ [(2, Go)]) = Some c2" by (simp add: exec_step)
  have t2: "threads c2 2 = Generic G_Attach 5 [ACreate] # [User]" and r2: "ready (pool c2) 5"
    and v2: "\<not> events (pool c2) (LocalEvent 2)"
    using r1 by (simp_all add: c2_def)
  define c3 where "c3 = \<lparr>pool = (pool c2)\<lparr>events := (events (pool c2))(LocalEvent 2 := True)\<rparr>,
      threads = (threads c2)(2 := [Generic G_Wait 5 [ACreate, AOnFinish 5], User])\<rparr>"
  from t[OF c2, where tid = 2 and T = 5 and tr = "[ACreate]" and stack = "[User]" and c = Go,
      THEN conjunct2, THEN conjunct2, THEN conjunct2, THEN conjunct1, rule_format, OF t2] r2
  have "step 1 (2, Go) c2 = Some c3" by (simp add: c3_def)
  with c2 have c3: "exec 1 (wait_completed @ [(2, Go), (2, Go)]) = Some c3"
    using exec_step[of 1 "wait_completed @ [(2, Go)]" c2 "(2, Go)"] by simp
  have t3: "threads c3 2 = Generic G_Wait 5 [ACreate, AOnFinish 5] # [User]"
    and v3: "events (pool c3) (LocalEvent 2)"
    by (simp_all add: c3_def)
  define c4 where "c4 = \<lparr>pool = (pool c3)\<lparr>events := (events (pool c3))(LocalEvent 2 := False)\<rparr>,
      threads = (threads c3)(2 := [Generic G_Return 5 [ACreate, AOnFinish 5, AWait], User])\<rparr>"
  from t[OF c3, where tid = 2 and T = 5 and tr = "[ACreate, AOnFinish 5]" and stack = "[User]"
        and c = Go,
      THEN conjunct2, THEN conjunct2, THEN conjunct2, THEN conjunct2, THEN conjunct1, rule_format,
      OF t3] v3
  have "step 1 (2, Go) c3 = Some c4" by (simp add: c4_def)
  with c3 have c4: "exec 1 (wait_completed @ [(2, Go), (2, Go), (2, Go)]) = Some c4"
    using exec_step[of 1 "wait_completed @ [(2, Go), (2, Go)]" c3 "(2, Go)"] by simp
  have t4: "threads c4 2 = Generic G_Return 5 [ACreate, AOnFinish 5, AWait] # [User]"
    and v4: "\<not> events (pool c4) (LocalEvent 2)"
    by (simp_all add: c4_def)
  define c5 where "c5 = \<lparr>pool = pool c4, threads = (threads c4)(2 := [User])\<rparr>"
  from t[OF c4, where tid = 2 and T = 5 and tr = "[ACreate, AOnFinish 5, AWait]" and stack = "[User]"
        and c = Go,
      THEN conjunct2, THEN conjunct2, THEN conjunct2, THEN conjunct2, THEN conjunct2, THEN conjunct1,
      rule_format, OF t4]
  have "step 1 (2, Go) c4 = Some c5" by (simp add: c5_def)
  with c4 have c5: "exec 1 (wait_completed @ [(2, Go), (2, Go), (2, Go), (2, Go)]) = Some c5"
    using exec_step[of 1 "wait_completed @ [(2, Go), (2, Go), (2, Go)]" c4 "(2, Go)"] by simp
  have t5: "threads c5 2 = [User]" by (simp add: c5_def)
  have "exec 1 (wait_completed @ ?rest) \<noteq> None"
    by (simp add: wait_completed_def completed_def eval_defs)
  then obtain cr where cr: "exec 1 (wait_completed @ ?rest) = Some cr" by auto
  with c1 have rr: "run_steps 1 ?rest c1 = Some cr"
    by (simp add: exec_def run_steps_append)
  have o: "others 2 [(0, Go), (0, Go)]" "others 2 [(0, Go), (0, Perm [0])]"
    by (simp_all add: others_def)
  from t[OF c1, where tid = 2 and T = 5 and stack = "[User]" and cb = Go and ca = Go
        and oa = "[(0, Go), (0, Go)]" and ob = "[(0, Go), (0, Perm [0])]" and oc = "[(0, Go), (0, Go)]"
        and cfg' = cr,
      THEN conjunct2, THEN conjunct2, THEN conjunct2, THEN conjunct2, THEN conjunct2, THEN conjunct2,
      THEN conjunct2, rule_format] t1 r1 o rr
  have tr: "threads cr 2 = Generic G_Wait 5 [ACreate, AOnFinish 5] # [User]"
    and vr: "events (pool cr) (LocalEvent 2)" by simp_all
  define cl where "cl = \<lparr>pool = (pool c2)\<lparr>conts := (conts (pool c2))(5 := conts (pool c2) 5 @ [LocalEvent 2])\<rparr>,
      threads = (threads c2)(2 := [Generic G_Wait 5 [ACreate, AOnFinish 5], User])\<rparr>"
  from t[OF c2, where tid = 2 and T = 5 and tr = "[ACreate]" and stack = "[User]" and c = Late,
      THEN conjunct2, THEN conjunct2, THEN conjunct2, THEN conjunct1, rule_format, OF t2]
  have "step 1 (2, Late) c2 = Some cl" by (simp add: cl_def)
  with c2 have cl: "exec 1 (wait_completed @ [(2, Go), (2, Late)]) = Some cl"
    using exec_step[of 1 "wait_completed @ [(2, Go)]" c2 "(2, Late)"] by simp
  have tl: "threads cl 2 = Generic G_Wait 5 [ACreate, AOnFinish 5] # [User]"
    and vl: "\<not> events (pool cl) (LocalEvent 2)"
    using v2 by (simp_all add: cl_def)
  from t[OF cl, where tid = 2 and T = 5 and tr = "[ACreate, AOnFinish 5]" and stack = "[User]"
        and c = Go,
      THEN conjunct2, THEN conjunct2, THEN conjunct2, THEN conjunct2, THEN conjunct1, rule_format,
      OF tl] vl
  have sl: "step 1 (2, Go) cl = None" by simp
  have "exec 1 wait_pending \<noteq> None"
    by (simp add: wait_pending_def eval_defs)
  then obtain p0 where p0: "exec 1 wait_pending = Some p0" by auto
  have "thread_of (exec 1 wait_pending) 2 = [Generic G_Attach 5 [ACreate], User]"
    "thread_of (exec 1 wait_pending) 0 = [Run 5, Worker W_LocalPop [ALocalPop None, APublicPop (Some 5), ARun 5]]"
    "\<not> ready (pool (the (exec 1 wait_pending))) 5"
    "conts (pool (the (exec 1 wait_pending))) 5 = []"
    "\<not> events (pool (the (exec 1 wait_pending))) (LocalEvent 2)"
    by (simp_all add: wait_pending_def eval_defs)
  with p0 have u0: "threads p0 2 = Generic G_Attach 5 [ACreate] # [User]"
    and w0: "threads p0 0 = Run 5 # [Worker W_LocalPop [ALocalPop None, APublicPop (Some 5), ARun 5]]"
    and n0: "\<not> ready (pool p0) 5" and k0: "conts (pool p0) 5 = []"
    and x0: "\<not> events (pool p0) (LocalEvent 2)"
    by (simp_all add: thread_of_def)
  define p1 where "p1 = \<lparr>pool = (pool p0)\<lparr>conts := (conts (pool p0))(5 := conts (pool p0) 5 @ [LocalEvent 2])\<rparr>,
      threads = (threads p0)(2 := [Generic G_Wait 5 [ACreate, AOnFinish 5], User])\<rparr>"
  from t[OF p0, where tid = 2 and T = 5 and tr = "[ACreate]" and stack = "[User]" and c = Go,
      THEN conjunct2, THEN conjunct2, THEN conjunct2, THEN conjunct1, rule_format, OF u0] n0
  have "step 1 (2, Go) p0 = Some p1" by (simp add: p1_def)
  with p0 have p1: "exec 1 (wait_pending @ [(2, Go)]) = Some p1" by (simp add: exec_step)
  have u1: "threads p1 2 = Generic G_Wait 5 [ACreate, AOnFinish 5] # [User]"
    and w1: "threads p1 0 = Run 5 # [Worker W_LocalPop [ALocalPop None, APublicPop (Some 5), ARun 5]]"
    and k1: "conts (pool p1) 5 = [LocalEvent 2]" and x1: "\<not> events (pool p1) (LocalEvent 2)"
    using w0 k0 x0 by (simp_all add: p1_def)
  from t[OF p1, where tid = 2 and T = 5 and tr = "[ACreate, AOnFinish 5]" and stack = "[User]"
        and c = Go,
      THEN conjunct2, THEN conjunct2, THEN conjunct2, THEN conjunct2, THEN conjunct1, rule_format,
      OF u1] x1
  have b1: "step 1 (2, Go) p1 = None" by simp
  define p2 where "p2 = \<lparr>pool = (pool p1)\<lparr>events := (\<lambda>e. e \<in> set (conts (pool p1) 5) \<or> events (pool p1) e),
                              ready := (ready (pool p1))(5 := True),
                              conts := (conts (pool p1))(5 := [])\<rparr>,
            threads = (threads p1)(0 := [Worker W_LocalPop [ALocalPop None, APublicPop (Some 5), ARun 5]])\<rparr>"
  from t[OF p1, where j = 0 and T = 5
        and st = "[Worker W_LocalPop [ALocalPop None, APublicPop (Some 5), ARun 5]]",
      THEN conjunct2, THEN conjunct2, THEN conjunct2, THEN conjunct2, THEN conjunct2, THEN conjunct2,
      THEN conjunct1, rule_format, OF w1]
  have "step 1 (0, Return) p1 = Some p2" by (simp add: p2_def)
  with p1 have p2: "exec 1 (wait_pending @ [(2, Go), (0, Return)]) = Some p2"
    using exec_step[of 1 "wait_pending @ [(2, Go)]" p1 "(0, Return)"] by simp
  have u2: "threads p2 2 = Generic G_Wait 5 [ACreate, AOnFinish 5] # [User]"
    and x2: "events (pool p2) (LocalEvent 2)"
    using u1 k1 by (simp_all add: p2_def)
  define p3 where "p3 = \<lparr>pool = (pool p2)\<lparr>events := (events (pool p2))(LocalEvent 2 := False)\<rparr>,
      threads = (threads p2)(2 := [Generic G_Return 5 [ACreate, AOnFinish 5, AWait], User])\<rparr>"
  from t[OF p2, where tid = 2 and T = 5 and tr = "[ACreate, AOnFinish 5]" and stack = "[User]"
        and c = Go,
      THEN conjunct2, THEN conjunct2, THEN conjunct2, THEN conjunct2, THEN conjunct1, rule_format,
      OF u2] x2
  have "step 1 (2, Go) p2 = Some p3" by (simp add: p3_def)
  with p2 have p3: "exec 1 (wait_pending @ [(2, Go), (0, Return), (2, Go)]) = Some p3"
    using exec_step[of 1 "wait_pending @ [(2, Go), (0, Return)]" p2 "(2, Go)"] by simp
  have u3: "threads p3 2 = [Generic G_Return 5 [ACreate, AOnFinish 5, AWait], User]"
    by (simp add: p3_def)
  from c0 c1 c2 c3 c4 c5 cr cl p0 p1 p2 p3 h0 t1 r1 t2 v2 t3 v3 t4 v4 t5 tr vr tl sl u0 n0 k1 b1 x2 u3
  show ?thesis by (simp add: thread_of_def)
qed

section \<open>A submission between the last look at the queues and the registration\<close>

text \<open>
  Since the main loop does not look at the queues again after \<open>reset()\<close>, a task
  submitted after the worker's last pop and before its registration stays in the public
  queue while the worker waits: in the run \<open>submit_before_park\<close> the task 7 is queued,
  the call of \<open>schedule\<close> has returned, the event of the worker is not signalled and
  the worker cannot take a step.
\<close>

lemma submission_wakes_nobody:
  "thread_of (exec 1 submit_before_park) 0 =
     [Worker W_Wait [ALocalPop None, APublicPop None, AShutdown False, AReset,
        ARegister (WorkerEvent 0), AShutdown False]]
   \<and> thread_of (exec 1 submit_before_park) 1 = [User]
   \<and> public_queue (pool (the (exec 1 submit_before_park))) = [7]
   \<and> waiters (pool (the (exec 1 submit_before_park))) = [WorkerEvent 0]
   \<and> \<not> events (pool (the (exec 1 submit_before_park))) (WorkerEvent 0)
   \<and> step 1 (0, Go) (the (exec 1 submit_before_park)) = None"
  by (simp add: submit_before_park_def eval_defs)

end
